theory Spec2Isabelle
  imports Main "HOL-Library.Word"
begin

unbundle bit_operations_syntax

section \<open>Machine integers and the tag bit\<close>

text \<open>
  The element type \<open>T\<close> of the C++ templates is an unsigned integer type; it is modelled
  as \<open>'a word\<close> for an arbitrary width \<open>LENGTH('a)\<close>. \<open>std::size_t\<close> is a 64-bit word.
  The source throws no exception of its own; an operation can go wrong by a failed
  \<open>assert\<close>, by a read outside the underlying \<open>std::vector\<close>, and by the
  \<open>std::length_error\<close> that \<open>std::vector::reserve\<close> throws when asked for more than
  \<open>max_size()\<close> elements.
\<close>

datatype error = AssertionFailed | OutOfBounds | LengthError

type_synonym size_type = "64 word"

text \<open>\<open>mask = numeric_limits<T>::max() ^ (numeric_limits<T>::max() >> 1)\<close>\<close>

definition tag_mask :: "'a::len word" where
  "tag_mask = (- 1) XOR (drop_bit 1 (- 1))"

text \<open>\<open>numeric_limits<T>::max()\<close>\<close>

definition LAST :: "'a::len word" where
  "LAST = - 1"

text \<open>
  \<open>b - a\<close> on operands of type \<open>T\<close>, as C++ computes it: a type narrower than \<open>int\<close>
  (32 bits) is promoted to \<open>int\<close> and the difference can be negative; a type at least as
  wide as \<open>int\<close> wraps around.
\<close>

definition promoted_diff :: "'a::len word \<Rightarrow> 'a word \<Rightarrow> int" where
  "promoted_diff b a = (if LENGTH('a) < 32 then uint b - uint a else uint (b - a))"

text \<open>Sequencing of fallible steps.\<close>

definition ebind :: "error + 'x \<Rightarrow> ('x \<Rightarrow> error + 'y) \<Rightarrow> error + 'y" where
  "ebind m f = (case m of Inl e \<Rightarrow> Inl e | Inr x \<Rightarrow> f x)"

text \<open>Reading \<open>*(begin + i)\<close> from a vector; outside the vector the behaviour is undefined.\<close>

definition read_at :: "'t list \<Rightarrow> nat \<Rightarrow> error + 't" where
  "read_at vect i = (if i < length vect then Inr (vect ! i) else Inl OutOfBounds)"

section \<open>The iterator of IntegralRangeVector\<close>

text \<open>
  A \<open>const_iterator\<close> holds two positions in the word vector and the decoded current
  value. Positions are indices; the vector they point into is passed to every operation
  that reads it.
\<close>

record 't const_iterator =
  base_iter :: nat
  end_iter :: nat
  current_value :: "'t \<times> 't"

definition calculate_value ::
  "'a::len word list \<Rightarrow> 'a word const_iterator \<Rightarrow> error + 'a word const_iterator" where
  "calculate_value vect it =
    (if base_iter it \<ge> end_iter it then Inr (it\<lparr>current_value := (0, 0)\<rparr>)
     else ebind (read_at vect (base_iter it)) (\<lambda>w.
       if tag_mask AND w \<noteq> 0 then
         ebind (read_at vect (base_iter it + 1)) (\<lambda>w2.
           Inr (it\<lparr>current_value := (w AND NOT tag_mask, w2 AND NOT tag_mask)\<rparr>))
       else Inr (it\<lparr>current_value := (w, w + 1)\<rparr>)))"

definition make_iterator ::
  "'a::len word list \<Rightarrow> nat \<Rightarrow> nat \<Rightarrow> error + 'a word const_iterator" where
  "make_iterator vect b e =
     calculate_value vect \<lparr>base_iter = b, end_iter = e, current_value = (0, 0)\<rparr>"

definition cbegin :: "'a::len word list \<Rightarrow> error + 'a word const_iterator" where
  "cbegin vect = make_iterator vect 0 (length vect)"

definition cend :: "'a::len word list \<Rightarrow> error + 'a word const_iterator" where
  "cend vect = make_iterator vect (length vect) (length vect)"

definition iter_eq :: "'t const_iterator \<Rightarrow> 't const_iterator \<Rightarrow> bool" where
  "iter_eq a b = (base_iter a = base_iter b)"

definition iter_ne :: "'t const_iterator \<Rightarrow> 't const_iterator \<Rightarrow> bool" where
  "iter_ne a b = (base_iter a \<noteq> base_iter b)"

definition iter_lt :: "'t const_iterator \<Rightarrow> 't const_iterator \<Rightarrow> bool" where
  "iter_lt a b = (base_iter a < base_iter b)"

definition iter_gt :: "'t const_iterator \<Rightarrow> 't const_iterator \<Rightarrow> bool" where
  "iter_gt a b = (base_iter a > base_iter b)"

definition iter_le :: "'t const_iterator \<Rightarrow> 't const_iterator \<Rightarrow> bool" where
  "iter_le a b = (base_iter a \<le> base_iter b)"

definition iter_ge :: "'t const_iterator \<Rightarrow> 't const_iterator \<Rightarrow> bool" where
  "iter_ge a b = (base_iter a \<ge> base_iter b)"

text \<open>\<open>operator*\<close> and \<open>operator->\<close>: both assert \<open>_base_iter < _end_iter\<close>.\<close>

definition deref :: "'t const_iterator \<Rightarrow> error + 't \<times> 't" where
  "deref it = (if base_iter it < end_iter it then Inr (current_value it) else Inl AssertionFailed)"

definition arrow :: "'t const_iterator \<Rightarrow> error + 't \<times> 't" where
  "arrow it = (if base_iter it < end_iter it then Inr (current_value it) else Inl AssertionFailed)"

text \<open>
  The step shared by both increments: skip the second word of a tagged pair, move on by
  one and decode. The test \<open>_base_iter < _end_iter && mask & *_base_iter\<close> reads the
  vector only when the position is before the end.
\<close>

definition advance ::
  "'a::len word list \<Rightarrow> 'a word const_iterator \<Rightarrow> error + 'a word const_iterator" where
  "advance vect it =
     ebind (if base_iter it < end_iter it
            then ebind (read_at vect (base_iter it)) (\<lambda>w. Inr (tag_mask AND w \<noteq> 0))
            else Inr False) (\<lambda>tagged.
       calculate_value vect
         (it\<lparr>base_iter := (if tagged then base_iter it + 1 else base_iter it) + 1\<rparr>))"

text \<open>
  Postfix increment returns the copy taken before the step, together with the updated
  iterator; prefix increment returns the updated iterator.
\<close>

definition post_inc ::
  "'a::len word list \<Rightarrow> 'a word const_iterator \<Rightarrow>
     error + ('a word const_iterator \<times> 'a word const_iterator)" where
  "post_inc vect it = ebind (advance vect it) (\<lambda>it'. Inr (it, it'))"

definition pre_inc ::
  "'a::len word list \<Rightarrow> 'a word const_iterator \<Rightarrow> error + 'a word const_iterator" where
  "pre_inc vect it = advance vect it"

text \<open>
  The range-based loop \<open>for (const auto &range : *this)\<close>: from \<open>begin()\<close>, while the
  iterator differs from \<open>end()\<close>, dereference and pre-increment. The result is the
  sequence of values the loop body sees.
\<close>

lemma ebind_cong [fundef_cong]:
  "m = m' \<Longrightarrow> (\<And>x. m' = Inr x \<Longrightarrow> f x = f' x) \<Longrightarrow> ebind m f = ebind m' f'"
  by (simp add: ebind_def split: sum.splits)

function iterate ::
  "'a::len word list \<Rightarrow> 'a word const_iterator \<Rightarrow> 'a word const_iterator \<Rightarrow>
     error + ('a word \<times> 'a word) list" where
  "iterate vect it e =
     (if iter_ne it e then
        ebind (deref it) (\<lambda>r.
        ebind (pre_inc vect it) (\<lambda>it'.
        ebind (iterate vect it' e) (\<lambda>rs. Inr (r # rs))))
      else Inr [])"
  by pat_completeness auto
termination
proof (relation "measure (\<lambda>(vect, it, e). length vect - base_iter it)")
  show "wf (measure (\<lambda>(vect, it, e). length vect - base_iter it))"
    by simp
next
  fix vect :: "'a word list" and it e :: "'a word const_iterator" and x xa
  assume d: "deref it = Inr x" and p: "pre_inc vect it = Inr xa"
  from d have lt: "base_iter it < end_iter it"
    by (simp add: deref_def split: if_splits)
  from p lt have inb: "base_iter it < length vect"
    by (auto simp: pre_inc_def advance_def ebind_def read_at_def split: if_splits sum.splits)
  from p have "base_iter it < base_iter xa"
    by (auto simp: pre_inc_def advance_def calculate_value_def ebind_def read_at_def
             split: if_splits sum.splits)
  with inb show "((vect, xa, e), (vect, it, e)) \<in> measure (\<lambda>(vect, it, e). length vect - base_iter it)"
    by simp
qed

declare iterate.simps [simp del]

definition ranges_of :: "'a::len word list \<Rightarrow> error + ('a word \<times> 'a word) list" where
  "ranges_of vect = ebind (cbegin vect) (\<lambda>b. ebind (cend vect) (\<lambda>e. iterate vect b e))"

section \<open>IntegralRangeVector\<close>

text \<open>
  The container: the vector of words and the cached length (\<open>std::optional<size_type>\<close>,
  mutable).
\<close>

record 't irv =
  rangeVect :: "'t list"
  length_opt :: "size_type option"

text \<open>The constructors from a vector or an iterator pair leave the cache unset.\<close>

definition from_vector :: "'t list \<Rightarrow> 't irv" where
  "from_vector vect = \<lparr>rangeVect = vect, length_opt = None\<rparr>"

text \<open>The default constructor: no words, cached length 0.\<close>

definition empty_irv :: "'t irv" where
  "empty_irv = \<lparr>rangeVect = [], length_opt = Some 0\<rparr>"

text \<open>
  \<open>push_back(value_type val)\<close>. The comparison \<open>(back & ~mask) == val.first - 1\<close> is the
  same on promoted operands and on words: the left side has the tag bit clear, and
  \<open>val.first - 1\<close> is negative (promoted) or has every bit set (wrapped) when
  \<open>val.first\<close> is 0. \<open>back() = x\<close> overwrites the last word.
\<close>

definition push_back_range :: "'a::len word irv \<Rightarrow> 'a word \<times> 'a word \<Rightarrow> error + 'a word irv" where
  "push_back_range c val =
    (if (fst val AND tag_mask) \<noteq> 0 then Inl AssertionFailed
     else if (snd val AND tag_mask) \<noteq> 0 then Inl AssertionFailed
     else
       let d = promoted_diff (snd val) (fst val);
           c1 = c\<lparr>length_opt := map_option (\<lambda>n. n + word_of_int d) (length_opt c)\<rparr>;
           v = rangeVect c1
       in if v \<noteq> [] \<and> d > 0 \<and> (last v AND tag_mask) > 0
               \<and> (last v AND NOT tag_mask) = fst val
          then Inr (c1\<lparr>rangeVect := butlast v @ [snd val OR tag_mask]\<rparr>)
          else if v \<noteq> [] \<and> d > 0 \<and> (last v AND tag_mask) = 0
               \<and> (last v AND NOT tag_mask) = fst val - 1
          then Inr (c1\<lparr>rangeVect := (butlast v @ [last v OR tag_mask]) @ [snd val OR tag_mask]\<rparr>)
          else if d = 0 then Inr c1
          else if d = 1 then Inr (c1\<lparr>rangeVect := v @ [fst val]\<rparr>)
          else Inr (c1\<lparr>rangeVect := (v @ [fst val OR tag_mask]) @ [snd val OR tag_mask]\<rparr>))"

text \<open>\<open>push_back(T val)\<close>\<close>

definition push_back_value :: "'a::len word irv \<Rightarrow> 'a word \<Rightarrow> error + 'a word irv" where
  "push_back_value c val =
    (if (val AND tag_mask) \<noteq> 0 then Inl AssertionFailed
     else
       let c1 = c\<lparr>length_opt := map_option (\<lambda>n. n + 1) (length_opt c)\<rparr>;
           v = rangeVect c1
       in if v \<noteq> [] \<and> (last v AND tag_mask) > 0 \<and> (last v AND NOT tag_mask) = val
          then Inr (c1\<lparr>rangeVect := butlast v @ [(val + 1) OR tag_mask]\<rparr>)
          else if v \<noteq> [] \<and> (last v AND tag_mask) = 0 \<and> (last v AND NOT tag_mask) = val - 1
          then Inr (c1\<lparr>rangeVect := (butlast v @ [last v OR tag_mask]) @ [(val + 1) OR tag_mask]\<rparr>)
          else Inr (c1\<lparr>rangeVect := v @ [val]\<rparr>))"

definition irv_eq :: "'t irv \<Rightarrow> 't irv \<Rightarrow> bool" where
  "irv_eq c other = (rangeVect c = rangeVect other)"

definition getBase :: "'t irv \<Rightarrow> 't list" where
  "getBase c = rangeVect c"

definition empty :: "'t irv \<Rightarrow> bool" where
  "empty c = (rangeVect c = [])"

text \<open>
  The loop \<open>for (auto i = first; i < second; i++) output.push_back(i)\<close> on a plain vector
  (in \<open>toVector\<close> and in \<open>insert_back\<close>).
\<close>

lemma word_less_Suc_unat:
  fixes i e :: "'a::len word"
  assumes "i < e"
  shows "unat (i + 1) = Suc (unat i)"
proof -
  from assms have "i \<noteq> - 1"
    by (metis word_order.extremum_strict)
  then have "i + 1 \<noteq> 0"
    by (metis add.commute add_eq_0_iff)
  then have "1 + i \<noteq> 0"
    by (simp add: add.commute)
  from unatSuc [OF this] show ?thesis
    by (simp add: add.commute)
qed

function push_values :: "'a::len word \<Rightarrow> 'a word \<Rightarrow> 'a word list \<Rightarrow> 'a word list" where
  "push_values i e out = (if i < e then push_values (i + 1) e (out @ [i]) else out)"
  by pat_completeness auto
termination
proof (relation "measure (\<lambda>(i, e, out). unat e - unat i)")
  show "wf (measure (\<lambda>(i, e, out). unat e - unat i))"
    by simp
next
  fix i e :: "'a word" and out :: "'a word list"
  assume lt: "i < e"
  then have "unat i < unat e"
    by (simp add: word_less_nat_alt)
  with word_less_Suc_unat [OF lt]
  show "((i + 1, e, out @ [i]), (i, e, out)) \<in> measure (\<lambda>(i, e, out). unat e - unat i)"
    by simp
qed

declare push_values.simps [simp del]

text \<open>
  \<open>reserve(n)\<close> on a vector whose \<open>max_size()\<close> is \<open>max_size\<close>; the request is a
  \<open>size_t\<close>. \<open>max_size()\<close> belongs to the standard library and the allocator, so it is
  a parameter here.
\<close>

definition reserve :: "nat \<Rightarrow> size_type \<Rightarrow> 'r \<Rightarrow> error + 'r" where
  "reserve max_size n result = (if unat n > max_size then Inl LengthError else Inr result)"

text \<open>
  The body of the loop of \<open>toVector\<close>, over the ranges that the iteration yields:
  \<open>result.reserve(result.size() + (range.second - range.first))\<close>, where the sum is made
  in \<open>size_t\<close>, and then the values of the range are pushed.
\<close>

fun toVector_loop ::
  "nat \<Rightarrow> ('a::len word \<times> 'a word) list \<Rightarrow> 'a word list \<Rightarrow> error + 'a word list" where
  "toVector_loop max_size [] result = Inr result"
| "toVector_loop max_size (r # rs) result =
     ebind (reserve max_size (of_nat (length result) + word_of_int (promoted_diff (snd r) (fst r)))
              result) (\<lambda>result.
       toVector_loop max_size rs (push_values (fst r) (snd r) result))"

text \<open>
  \<open>toVector\<close>: \<open>result.reserve(_rangeVect.size())\<close>, then the loop. The ranges are decoded
  before the loop runs, so a word sequence that cannot be decoded to its end gives that
  failure.
\<close>

definition toVector :: "nat \<Rightarrow> 'a::len word irv \<Rightarrow> error + 'a word list" where
  "toVector max_size c =
     ebind (reserve max_size (of_nat (length (rangeVect c))) []) (\<lambda>result.
     ebind (ranges_of (rangeVect c)) (\<lambda>rs. toVector_loop max_size rs result))"

text \<open>
  \<open>length()\<close>: the cached value if there is one; otherwise the sum over the iteration,
  which is stored in the cache. The function returns the value and the container with
  its cache as the call leaves it.
\<close>

definition irv_length :: "'a::len word irv \<Rightarrow> error + (size_type \<times> 'a word irv)" where
  "irv_length c =
     (case length_opt c of
        Some n \<Rightarrow> Inr (n, c)
      | None \<Rightarrow>
          ebind (ranges_of (rangeVect c)) (\<lambda>rs.
            let n = foldl (\<lambda>acc r. acc + word_of_int (promoted_diff (snd r) (fst r)))
                      0 rs
            in Inr (n, c\<lparr>length_opt := Some n\<rparr>)))"

section \<open>RangeMerger\<close>

text \<open>
  \<open>intersect_ranges\<close> and \<open>unite_ranges\<close> are templates over the container type \<open>Cont\<close>.
  They use a container through its default constructor, through \<open>begin()\<close> and \<open>end()\<close>
  with \<open>get_first\<close>, \<open>get_last\<close> and \<open>++\<close> on the iterators, and through \<open>insert_back\<close>.
  The model takes these as parameters: \<open>empty_cont\<close>, \<open>ins\<close>, and \<open>view\<close>, the sequence
  of pairs \<open>(get_first it, get_last it)\<close> for the iterators from \<open>begin()\<close> up to \<open>end()\<close>.
  An iterator is the part of that sequence it has not passed: \<open>++\<close> is \<open>tl\<close>, and the
  iterator equals \<open>end()\<close> when nothing is left.
\<close>

text \<open>\<open>get_first\<close> and \<open>get_last\<close> on a plain vector of values: \<open>*it\<close> and \<open>T(*it + 1u)\<close>.\<close>

definition vec_view :: "'a::len word list \<Rightarrow> error + ('a word \<times> 'a word) list" where
  "vec_view vect = Inr (map (\<lambda>v. (v, v + 1)) vect)"

text \<open>On an IntegralRangeVector: \<open>it->first\<close> and \<open>it->second\<close>.\<close>

definition irv_view :: "'a::len word irv \<Rightarrow> error + ('a word \<times> 'a word) list" where
  "irv_view c = ranges_of (rangeVect c)"

text \<open>\<open>insert_back\<close>, the overload for containers of values and the one for containers of pairs.\<close>

definition insert_back_vec :: "'a::len word list \<Rightarrow> 'a word \<times> 'a word \<Rightarrow> error + 'a word list" where
  "insert_back_vec output r = Inr (push_values (fst r) (snd r) output)"

definition insert_back_irv :: "'a::len word irv \<Rightarrow> 'a word \<times> 'a word \<Rightarrow> error + 'a word irv" where
  "insert_back_irv output r = push_back_range output r"

text \<open>
  The inner loop of \<open>intersect_ranges\<close> over the inputs, from input \<open>i\<close> on:
  \<open>curRangeBegin\<close> grows to the largest \<open>begin\<close>, \<open>curRangeEnd\<close> shrinks to the smallest
  \<open>end\<close>, and \<open>containerToForward\<close> is the first input that attains it.
\<close>

fun intersect_scan ::
  "('a::len word \<times> 'a word) list list \<Rightarrow> nat \<Rightarrow> 'a word \<Rightarrow> 'a word \<Rightarrow> nat \<Rightarrow>
     error + ('a word \<times> 'a word \<times> nat)" where
  "intersect_scan [] i curRangeBegin curRangeEnd containerToForward =
     Inr (curRangeBegin, curRangeEnd, containerToForward)"
| "intersect_scan (it # its) i curRangeBegin curRangeEnd containerToForward =
     (case it of
        [] \<Rightarrow> Inl AssertionFailed
      | r # _ \<Rightarrow>
          intersect_scan its (i + 1)
            (if fst r > curRangeBegin then fst r else curRangeBegin)
            (if snd r < curRangeEnd then snd r else curRangeEnd)
            (if snd r < curRangeEnd then i else containerToForward))"

text \<open>The update of \<open>pendingRange\<close> and \<open>result\<close> after the inner loop of \<open>intersect_ranges\<close>.\<close>

definition intersect_emit ::
  "('c \<Rightarrow> 'a::len word \<times> 'a word \<Rightarrow> error + 'c) \<Rightarrow> 'c \<Rightarrow> ('a word \<times> 'a word) option \<Rightarrow>
     'a word \<Rightarrow> 'a word \<Rightarrow> error + (('a word \<times> 'a word) option \<times> 'c)" where
  "intersect_emit ins result pendingRange curRangeBegin curRangeEnd =
     (if curRangeBegin < curRangeEnd then
        (case pendingRange of
           Some p \<Rightarrow>
             if snd p = curRangeBegin then Inr (Some (fst p, curRangeEnd), result)
             else ebind (ins result p) (\<lambda>res. Inr (Some (curRangeBegin, curRangeEnd), res))
         | None \<Rightarrow> Inr (Some (curRangeBegin, curRangeEnd), result))
      else Inr (pendingRange, result))"

lemma intersect_scan_nonempty:
  "intersect_scan its i cb ce k = Inr x \<Longrightarrow> it \<in> set its \<Longrightarrow> it \<noteq> []"
  by (induction its i cb ce k rule: intersect_scan.induct) (auto split: list.splits)

lemma sum_list_length_tl_update:
  assumes "k < length its" and "its ! k \<noteq> []"
  shows "sum_list (map length (its[k := tl (its ! k)])) < sum_list (map length its)"
proof -
  have "sum_list (map length (its[k := tl (its ! k)]))
          = sum_list ((map length its)[k := length (its ! k) - 1])"
    by (simp add: map_update)
  also have "\<dots> = sum_list (map length its) + (length (its ! k) - 1) - length (its ! k)"
    using assms(1) by (simp add: sum_list_update)
  also have "\<dots> < sum_list (map length its)"
  proof -
    have "length (its ! k) \<le> sum_list (map length its)"
      using assms(1) by (simp add: member_le_sum_list)
    moreover have "0 < length (its ! k)"
      using assms(2) by simp
    ultimately show ?thesis
      by linarith
  qed
  finally show ?thesis .
qed

text \<open>
  The outer loop \<open>for (;;)\<close> of \<open>intersect_ranges\<close>. \<open>curRangeEnd\<close> is reset to the maximum
  before the next round. Indexing \<open>iters\<close> beyond its size is undefined in the source.
\<close>

function intersect_loop ::
  "('c \<Rightarrow> 'a::len word \<times> 'a word \<Rightarrow> error + 'c) \<Rightarrow> ('a word \<times> 'a word) list list \<Rightarrow>
     'a word \<Rightarrow> 'a word \<Rightarrow> ('a word \<times> 'a word) option \<Rightarrow> nat \<Rightarrow> 'c \<Rightarrow> error + 'c" where
  "intersect_loop ins iters curRangeBegin curRangeEnd pendingRange containerToForward result =
     ebind (intersect_scan iters 0 curRangeBegin curRangeEnd containerToForward) (\<lambda>s.
     ebind (intersect_emit ins result pendingRange (fst s) (fst (snd s))) (\<lambda>pr.
       if snd (snd s) < length iters then
         (if tl (iters ! snd (snd s)) = [] then
            (case fst pr of Some p \<Rightarrow> ins (snd pr) p | None \<Rightarrow> Inr (snd pr))
          else intersect_loop ins (iters[snd (snd s) := tl (iters ! snd (snd s))])
                 (fst s) LAST (fst pr) (snd (snd s)) (snd pr))
       else Inl OutOfBounds))"
  by pat_completeness auto
termination
  apply (relation "measure (\<lambda>(ins, iters, cb, ce, pend, k, res). sum_list (map length iters))")
   apply simp
  apply (simp only: in_measure prod.case)
  apply (rule sum_list_length_tl_update, assumption)
  apply (erule intersect_scan_nonempty)
  apply simp
  done

declare intersect_loop.simps [simp del]

text \<open>
  The first loop of \<open>intersect_ranges\<close>: one iterator per input, or nothing as soon as an
  input is empty.
\<close>

fun begin_iters ::
  "('c \<Rightarrow> error + ('a \<times> 'a) list) \<Rightarrow> 'c list \<Rightarrow> error + ('a \<times> 'a) list list option" where
  "begin_iters view [] = Inr (Some [])"
| "begin_iters view (r # ranges) =
     ebind (view r) (\<lambda>v.
       if v = [] then Inr None
       else ebind (begin_iters view ranges) (\<lambda>its. Inr (map_option ((#) v) its)))"

definition intersect_ranges ::
  "'c \<Rightarrow> ('c \<Rightarrow> 'a::len word \<times> 'a word \<Rightarrow> error + 'c) \<Rightarrow>
     ('c \<Rightarrow> error + ('a word \<times> 'a word) list) \<Rightarrow> 'c list \<Rightarrow> error + 'c" where
  "intersect_ranges empty_cont ins view ranges =
     (if ranges = [] then Inr empty_cont
      else if length ranges = 1 then Inr (ranges ! 0)
      else ebind (begin_iters view ranges) (\<lambda>iters.
             case iters of
               None \<Rightarrow> Inr empty_cont
             | Some its \<Rightarrow> intersect_loop ins its 0 LAST None 0 empty_cont))"

definition intersect_ranges_vec :: "'a::len word list list \<Rightarrow> error + 'a word list" where
  "intersect_ranges_vec = intersect_ranges [] insert_back_vec vec_view"

definition intersect_ranges_irv :: "'a::len word irv list \<Rightarrow> error + 'a word irv" where
  "intersect_ranges_irv = intersect_ranges empty_irv insert_back_irv irv_view"

text \<open>
  The inner loop of \<open>unite_ranges\<close>: the first input, among those not at their end, whose
  current range begins lowest (and below the current \<open>curRangeBegin\<close>).
\<close>

fun unite_scan ::
  "('a::len word \<times> 'a word) list list \<Rightarrow> nat \<Rightarrow> 'a word \<Rightarrow> 'a word \<Rightarrow> nat \<Rightarrow>
     'a word \<times> 'a word \<times> nat" where
  "unite_scan [] i curRangeBegin curRangeEnd containerToForward =
     (curRangeBegin, curRangeEnd, containerToForward)"
| "unite_scan (it # its) i curRangeBegin curRangeEnd containerToForward =
     (case it of
        [] \<Rightarrow> unite_scan its (i + 1) curRangeBegin curRangeEnd containerToForward
      | r # _ \<Rightarrow>
          if fst r < curRangeBegin then unite_scan its (i + 1) (fst r) (snd r) i
          else unite_scan its (i + 1) curRangeBegin curRangeEnd containerToForward)"

definition unite_emit ::
  "('c \<Rightarrow> 'a::len word \<times> 'a word \<Rightarrow> error + 'c) \<Rightarrow> 'c \<Rightarrow> ('a word \<times> 'a word) option \<Rightarrow>
     'a word \<Rightarrow> 'a word \<Rightarrow> error + (('a word \<times> 'a word) option \<times> 'c)" where
  "unite_emit ins result pendingRange curRangeBegin curRangeEnd =
     (if curRangeBegin < curRangeEnd then
        (case pendingRange of
           Some p \<Rightarrow>
             if snd p \<ge> curRangeBegin then
               (if snd p < curRangeEnd then Inr (Some (fst p, curRangeEnd), result)
                else Inr (Some p, result))
             else ebind (ins result p) (\<lambda>res. Inr (Some (curRangeBegin, curRangeEnd), res))
         | None \<Rightarrow> Inr (Some (curRangeBegin, curRangeEnd), result))
      else Inr (pendingRange, result))"

lemma unite_scan_result:
  "unite_scan its i cb ce k = (cb', ce', k') \<Longrightarrow>
     (cb', ce', k') = (cb, ce, k)
     \<or> (i \<le> k' \<and> k' - i < length its \<and> its ! (k' - i) \<noteq> []
         \<and> hd (its ! (k' - i)) = (cb', ce') \<and> cb' < cb)"
proof (induction its i cb ce k rule: unite_scan.induct)
  case (1 i cb ce k)
  then show ?case by simp
next
  case (2 it its i cb ce k)
  have idx: "k' - i = Suc (k' - (i + 1))" if "i + 1 \<le> k'"
    using that by arith
  show ?case
  proof (cases it)
    case Nil
    with 2 have "(cb', ce', k') = (cb, ce, k)
      \<or> (i + 1 \<le> k' \<and> k' - (i + 1) < length its \<and> its ! (k' - (i + 1)) \<noteq> []
          \<and> hd (its ! (k' - (i + 1))) = (cb', ce') \<and> cb' < cb)"
      by simp
    with idx show ?thesis
      by auto
  next
    case (Cons r rest)
    show ?thesis
    proof (cases "fst r < cb")
      case True
      with 2 Cons have "(cb', ce', k') = (fst r, snd r, i)
        \<or> (i + 1 \<le> k' \<and> k' - (i + 1) < length its \<and> its ! (k' - (i + 1)) \<noteq> []
            \<and> hd (its ! (k' - (i + 1))) = (cb', ce') \<and> cb' < fst r)"
        by simp
      with idx True Cons show ?thesis
        by auto
    next
      case False
      with 2 Cons have "(cb', ce', k') = (cb, ce, k)
        \<or> (i + 1 \<le> k' \<and> k' - (i + 1) < length its \<and> its ! (k' - (i + 1)) \<noteq> []
            \<and> hd (its ! (k' - (i + 1))) = (cb', ce') \<and> cb' < cb)"
        by simp
      with idx show ?thesis
        by auto
    qed
  qed
qed

text \<open>
  The outer loop \<open>for (;;)\<close> of \<open>unite_ranges\<close>; \<open>containerToForward\<close>, \<open>curRangeBegin\<close> and
  \<open>curRangeEnd\<close> are set anew at the top of every round.
\<close>

function unite_loop ::
  "('c \<Rightarrow> 'a::len word \<times> 'a word \<Rightarrow> error + 'c) \<Rightarrow> ('a word \<times> 'a word) list list \<Rightarrow>
     ('a word \<times> 'a word) option \<Rightarrow> 'c \<Rightarrow> error + 'c" where
  "unite_loop ins iters pendingRange result =
     (let s = unite_scan iters 0 LAST LAST 0 in
      if fst (snd s) = LAST then
        (case pendingRange of Some p \<Rightarrow> ins result p | None \<Rightarrow> Inr result)
      else
        ebind (unite_emit ins result pendingRange (fst s) (fst (snd s))) (\<lambda>pr.
          unite_loop ins (iters[snd (snd s) := tl (iters ! snd (snd s))]) (fst pr) (snd pr)))"
  by pat_completeness auto
termination
proof (relation "measure (\<lambda>(ins, iters, pend, res). sum_list (map length iters))",
       goal_cases)
  case 1
  show ?case by simp
next
  case (2 ins iters pend res s pr)
  obtain cb' ce' k' where s': "unite_scan iters 0 LAST LAST 0 = (cb', ce', k')"
    by (cases "unite_scan iters 0 LAST LAST 0") auto
  from unite_scan_result [OF s'] 2 s'
  have "k' < length iters \<and> iters ! k' \<noteq> []"
    by auto
  then have "sum_list (map length (iters[k' := tl (iters ! k')])) < sum_list (map length iters)"
    by (simp add: sum_list_length_tl_update)
  with 2 s' show ?case
    by simp
qed

declare unite_loop.simps [simp del]

fun all_iters :: "('c \<Rightarrow> error + ('a \<times> 'a) list) \<Rightarrow> 'c list \<Rightarrow> error + ('a \<times> 'a) list list" where
  "all_iters view [] = Inr []"
| "all_iters view (r # ranges) =
     ebind (view r) (\<lambda>v. ebind (all_iters view ranges) (\<lambda>its. Inr (v # its)))"

definition unite_ranges ::
  "'c \<Rightarrow> ('c \<Rightarrow> 'a::len word \<times> 'a word \<Rightarrow> error + 'c) \<Rightarrow>
     ('c \<Rightarrow> error + ('a word \<times> 'a word) list) \<Rightarrow> 'c list \<Rightarrow> error + 'c" where
  "unite_ranges empty_cont ins view ranges =
     (if ranges = [] then Inr empty_cont
      else if length ranges = 1 then Inr (ranges ! 0)
      else ebind (all_iters view ranges) (\<lambda>iters. unite_loop ins iters None empty_cont))"

definition unite_ranges_vec :: "'a::len word list list \<Rightarrow> error + 'a word list" where
  "unite_ranges_vec = unite_ranges [] insert_back_vec vec_view"

definition unite_ranges_irv :: "'a::len word irv list \<Rightarrow> error + 'a word irv" where
  "unite_ranges_irv = unite_ranges empty_irv insert_back_irv irv_view"

section \<open>Decoded ranges and well-formed word sequences\<close>

text \<open>
  The ranges a word sequence decodes to, read from the left as \<open>calculate_value\<close> and the
  increments do: a tagged word takes the next word as the end of its range, whatever that
  word's tag; an untagged word \<open>w\<close> is the range from \<open>w\<close> to \<open>w + 1\<close>. There is no decoding
  when a tagged word has no successor.
\<close>

fun decode :: "'a::len word list \<Rightarrow> ('a word \<times> 'a word) list option" where
  "decode [] = Some []"
| "decode (w # ws) =
     (if tag_mask AND w \<noteq> 0 then
        (case ws of
           [] \<Rightarrow> None
         | w2 # ws' \<Rightarrow> map_option ((#) (w AND NOT tag_mask, w2 AND NOT tag_mask)) (decode ws'))
      else map_option ((#) (w, w + 1)) (decode ws))"

text \<open>Tagged words occur in consecutive pairs.\<close>

fun paired :: "'a::len word list \<Rightarrow> bool" where
  "paired [] = True"
| "paired (w # ws) =
     (if tag_mask AND w \<noteq> 0 then
        (case ws of [] \<Rightarrow> False | w2 # ws' \<Rightarrow> tag_mask AND w2 \<noteq> 0 \<and> paired ws')
      else paired ws)"

text \<open>
  No range is empty, every endpoint is below the tag bit, and each range ends strictly
  before the next one begins (ascending and non-touching).
\<close>

definition ranges_ok :: "('a::len word \<times> 'a word) list \<Rightarrow> bool" where
  "ranges_ok rs =
     (list_all (\<lambda>r. fst r < snd r \<and> snd r < tag_mask) rs \<and> sorted_wrt (\<lambda>r s. snd r < fst s) rs)"

definition well_formed :: "'a::len word list \<Rightarrow> bool" where
  "well_formed ws = (paired ws \<and> (case decode ws of None \<Rightarrow> False | Some rs \<Rightarrow> ranges_ok rs))"

text \<open>The set of values a list of ranges, a word sequence and a container stand for.\<close>

definition ranges_set :: "('a::len word \<times> 'a word) list \<Rightarrow> 'a word set" where
  "ranges_set rs = (\<Union>r\<in>set rs. {fst r..<snd r})"

definition words_set :: "'a::len word list \<Rightarrow> 'a word set" where
  "words_set ws = (case decode ws of None \<Rightarrow> {} | Some rs \<Rightarrow> ranges_set rs)"

definition irv_set :: "'a::len word irv \<Rightarrow> 'a word set" where
  "irv_set c = words_set (rangeVect c)"

text \<open>The \<open>last\<close> endpoint of the last stored range, 0 for the empty container.\<close>

definition tail_last :: "'a::len word list \<Rightarrow> 'a word" where
  "tail_last ws = (case decode ws of Some (r # rs) \<Rightarrow> snd (last (r # rs)) | _ \<Rightarrow> 0)"

text \<open>The sum of \<open>last - first\<close> over the decoded ranges.\<close>

definition ranges_length :: "('a::len word \<times> 'a word) list \<Rightarrow> nat" where
  "ranges_length rs = sum_list (map (\<lambda>r. unat (snd r) - unat (fst r)) rs)"

definition total_length :: "'a::len word list \<Rightarrow> nat" where
  "total_length ws = (case decode ws of None \<Rightarrow> 0 | Some rs \<Rightarrow> ranges_length rs)"

text \<open>
  The append preconditions: for a range, \<open>first \<le> last\<close>, both endpoints below the tag bit,
  and \<open>first\<close> not below the last stored endpoint; a single value \<open>v\<close> is the range from \<open>v\<close>
  to \<open>v + 1\<close>.
\<close>

definition range_precondition :: "'a::len word irv \<Rightarrow> 'a word \<times> 'a word \<Rightarrow> bool" where
  "range_precondition c val =
     (fst val \<le> snd val \<and> fst val < tag_mask \<and> snd val < tag_mask
      \<and> tail_last (rangeVect c) \<le> fst val)"

definition value_precondition :: "'a::len word irv \<Rightarrow> 'a word \<Rightarrow> bool" where
  "value_precondition c v = (v < v + 1 \<and> range_precondition c (v, v + 1))"

text \<open>
  The stored form seen as a list of tokens: an untagged word, or a pair of tagged words.
\<close>

datatype 't tok = Sgl 't | Rng 't 't

fun render_tok :: "'a::len word tok \<Rightarrow> 'a word list" where
  "render_tok (Sgl a) = [a]"
| "render_tok (Rng a b) = [a OR tag_mask, b OR tag_mask]"

definition render :: "'a::len word tok list \<Rightarrow> 'a word list" where
  "render ts = concat (map render_tok ts)"

fun tok_range :: "'a::len word tok \<Rightarrow> 'a word \<times> 'a word" where
  "tok_range (Sgl a) = (a, a + 1)"
| "tok_range (Rng a b) = (a, b)"

fun tok_ok :: "'a::len word tok \<Rightarrow> bool" where
  "tok_ok (Sgl a) = (a < a + 1 \<and> a + 1 < tag_mask)"
| "tok_ok (Rng a b) = (a < b \<and> b < tag_mask)"

definition toks_ok :: "'a::len word tok list \<Rightarrow> bool" where
  "toks_ok ts = (list_all tok_ok ts \<and> sorted_wrt (\<lambda>r s. snd r < fst s) (map tok_range ts))"

text \<open>A range of one value is stored as an untagged word.\<close>

fun tok_canonical :: "'a::len word tok \<Rightarrow> bool" where
  "tok_canonical (Sgl a) = True"
| "tok_canonical (Rng a b) = (b \<noteq> a + 1)"

text \<open>Appending a range to a token list, coalescing with the last token when they touch.\<close>

definition apush :: "'a::len word tok list \<Rightarrow> 'a word \<times> 'a word \<Rightarrow> 'a word tok list" where
  "apush ts r =
     (if fst r = snd r then ts
      else if ts \<noteq> [] \<and> snd (tok_range (last ts)) = fst r
      then butlast ts @ [Rng (fst (tok_range (last ts))) (snd r)]
      else ts @ [if snd r = fst r + 1 then Sgl (fst r) else Rng (fst r) (snd r)])"

text \<open>
  The containers the public interface can produce: the empty one, one built from a
  well-formed word sequence, and what \<open>push_back\<close> calls that honour their precondition
  and \<open>length()\<close> calls (which may fill the cache) make of these.
\<close>

inductive reachable :: "'a::len word irv \<Rightarrow> bool" where
  reachable_empty: "reachable empty_irv"
| reachable_words: "well_formed ws \<Longrightarrow> reachable (from_vector ws)"
| reachable_range:
    "reachable c \<Longrightarrow> range_precondition c val \<Longrightarrow> push_back_range c val = Inr c' \<Longrightarrow>
       reachable c'"
| reachable_value:
    "reachable c \<Longrightarrow> value_precondition c v \<Longrightarrow> push_back_value c v = Inr c' \<Longrightarrow>
       reachable c'"
| reachable_length:
    "reachable c \<Longrightarrow> irv_length c = Inr (n, c') \<Longrightarrow> reachable c'"

text \<open>A cached length, when there is one, is the sum over the decoded ranges.\<close>

definition cache_ok :: "'a::len word irv \<Rightarrow> bool" where
  "cache_ok c = (well_formed (rangeVect c)
     \<and> (\<forall>m. length_opt c = Some m \<longrightarrow> m = of_nat (total_length (rangeVect c))))"

text \<open>
  Sequences of \<open>push_back\<close> calls: the two overloads, running a sequence (the first failed
  assertion ends it), whether every call of a sequence honours its precondition in the
  container it meets, and the set of values a sequence inserts.
\<close>

datatype 't push_op = PushRange "'t \<times> 't" | PushValue 't

fun apply_push :: "'a::len word irv \<Rightarrow> 'a word push_op \<Rightarrow> error + 'a word irv" where
  "apply_push c (PushRange val) = push_back_range c val"
| "apply_push c (PushValue v) = push_back_value c v"

fun push_all :: "'a::len word irv \<Rightarrow> 'a word push_op list \<Rightarrow> error + 'a word irv" where
  "push_all c [] = Inr c"
| "push_all c (p # ps) = ebind (apply_push c p) (\<lambda>c'. push_all c' ps)"

fun push_precondition :: "'a::len word irv \<Rightarrow> 'a word push_op \<Rightarrow> bool" where
  "push_precondition c (PushRange val) = range_precondition c val"
| "push_precondition c (PushValue v) = value_precondition c v"

fun honours :: "'a::len word irv \<Rightarrow> 'a word push_op list \<Rightarrow> bool" where
  "honours c [] = True"
| "honours c (p # ps) =
     (push_precondition c p \<and> (case apply_push c p of Inl e \<Rightarrow> False | Inr c' \<Rightarrow> honours c' ps))"

fun push_set :: "'a::len word push_op \<Rightarrow> 'a word set" where
  "push_set (PushRange val) = {fst val..<snd val}"
| "push_set (PushValue v) = {v}"

definition pushed_set :: "'a::len word push_op list \<Rightarrow> 'a word set" where
  "pushed_set ps = (\<Union>p\<in>set ps. push_set p)"

text \<open>
  What the merger expects of the ranges of an input: none is empty and each ends no later
  than the next one begins.
\<close>

definition asc :: "('a::len word \<times> 'a word) list \<Rightarrow> bool" where
  "asc rs = (sorted_wrt (\<lambda>r s. snd r \<le> fst s) rs \<and> (\<forall>r\<in>set rs. fst r < snd r))"

text \<open>The values that all, and that some, of the inputs still hold.\<close>

definition common_set :: "('a::len word \<times> 'a word) list list \<Rightarrow> 'a word set" where
  "common_set its = {x. \<forall>i<length its. x \<in> ranges_set (its ! i)}"

definition union_set :: "('a::len word \<times> 'a word) list list \<Rightarrow> 'a word set" where
  "union_set its = {x. \<exists>i<length its. x \<in> ranges_set (its ! i)}"

text \<open>
  The ranges inserted so far followed by the pending one are non-empty, end strictly
  before the next begins, and have their ends in \<open>bnd\<close>.
\<close>

definition pend_list :: "('a \<times> 'a) option \<Rightarrow> ('a \<times> 'a) list" where
  "pend_list p = (case p of None \<Rightarrow> [] | Some r \<Rightarrow> [r])"

definition out_inv ::
  "('a::len word \<Rightarrow> bool) \<Rightarrow> ('a word \<times> 'a word) list \<Rightarrow> ('a word \<times> 'a word) option \<Rightarrow> bool" where
  "out_inv bnd es pend =
     (sorted_wrt (\<lambda>r s. snd r < fst s) (es @ pend_list pend)
      \<and> (\<forall>e\<in>set (es @ pend_list pend). fst e < snd e \<and> bnd (snd e)))"

text \<open>
  An output container \<open>c\<close> stands for the list \<open>es\<close> of inserted ranges (relation \<open>R\<close>), and
  \<open>insert_back\<close> of a further range that lies strictly beyond them succeeds and keeps this.
\<close>

definition simulates ::
  "('c \<Rightarrow> ('a::len word \<times> 'a word) list \<Rightarrow> bool) \<Rightarrow> ('a word \<Rightarrow> bool) \<Rightarrow>
     ('c \<Rightarrow> 'a word \<times> 'a word \<Rightarrow> error + 'c) \<Rightarrow> bool" where
  "simulates R bnd ins =
     (\<forall>c es r. R c es \<and> fst r < snd r \<and> bnd (snd r) \<and> (\<forall>e\<in>set es. snd e < fst r) \<longrightarrow>
        (\<exists>c'. ins c r = Inr c' \<and> R c' (es @ [r])))"

text \<open>
  The output containers of the merger, seen as the list of ranges inserted into them: a
  plain vector holds the values of the ranges, one after the other; an
  IntegralRangeVector holds one token for each range, untagged for a single value, and
  has the sum of their lengths in its cache.
\<close>

definition vec_holds :: "'a::len word list \<Rightarrow> ('a word \<times> 'a word) list \<Rightarrow> bool" where
  "vec_holds c es = (c = foldl (\<lambda>out r. push_values (fst r) (snd r) out) [] es)"

definition irv_holds :: "'a::len word irv \<Rightarrow> ('a word \<times> 'a word) list \<Rightarrow> bool" where
  "irv_holds c es =
     (\<exists>ts. rangeVect c = render ts \<and> toks_ok ts \<and> list_all tok_canonical ts
        \<and> map tok_range ts = es \<and> length_opt c = Some (of_nat (ranges_length es)))"

(*DEFS-END*)

section \<open>The tag bit\<close>

lemma tag_mask_bit: "bit (tag_mask :: 'a::len word) n \<longleftrightarrow> n = LENGTH('a) - 1"
  unfolding tag_mask_def
  by (auto simp: bit_simps)

lemma tag_mask_eq: "(tag_mask :: 'a::len word) = 2 ^ (LENGTH('a) - 1)"
  by (rule bit_word_eqI) (auto simp: tag_mask_bit bit_simps)

lemma less_tag_iff_bit: "w < (tag_mask :: 'a::len word) \<longleftrightarrow> \<not> bit w (LENGTH('a) - 1)"
proof -
  have "w < 2 ^ (LENGTH('a) - 1) \<longleftrightarrow> w AND mask (LENGTH('a) - 1) = w"
    by (rule mask_eq_iff_w2p [symmetric]) (simp add: word_size)
  also have "\<dots> \<longleftrightarrow> take_bit (LENGTH('a) - 1) w = w"
    by (simp add: take_bit_eq_mask)
  also have "\<dots> \<longleftrightarrow> \<not> bit w (LENGTH('a) - 1)"
  proof
    assume "take_bit (LENGTH('a) - 1) w = w"
    then have "bit w (LENGTH('a) - 1) = bit (take_bit (LENGTH('a) - 1) w) (LENGTH('a) - 1)"
      by simp
    then show "\<not> bit w (LENGTH('a) - 1)"
      by (simp add: bit_simps)
  next
    assume nb: "\<not> bit w (LENGTH('a) - 1)"
    show "take_bit (LENGTH('a) - 1) w = w"
    proof (rule bit_word_eqI)
      fix k assume "k < LENGTH('a)"
      with nb show "bit (take_bit (LENGTH('a) - 1) w) k = bit w k"
        by (cases "k = LENGTH('a) - 1") (auto simp: bit_simps)
    qed
  qed
  finally show ?thesis
    by (simp add: tag_mask_eq)
qed

lemma and_tag_eq_0_iff: "(w AND tag_mask) = 0 \<longleftrightarrow> w < (tag_mask :: 'a::len word)"
proof -
  have "(w AND tag_mask = 0) \<longleftrightarrow> \<not> bit w (LENGTH('a) - 1)"
    unfolding tag_mask_eq by (rule and_exp_eq_0_iff_not_bit)
  then show ?thesis
    by (simp only: less_tag_iff_bit)
qed

lemma tag_and_eq_0_iff: "(tag_mask AND w) = 0 \<longleftrightarrow> w < (tag_mask :: 'a::len word)"
  using and_tag_eq_0_iff [of w] by (simp only: and.commute)

lemma clear_tag: "w < (tag_mask :: 'a::len word) \<Longrightarrow> (w OR tag_mask) AND NOT tag_mask = w"
  by (rule bit_word_eqI) (auto simp: less_tag_iff_bit bit_simps tag_mask_bit)

lemma clear_untagged: "w < (tag_mask :: 'a::len word) \<Longrightarrow> w AND NOT tag_mask = w"
  by (rule bit_word_eqI) (auto simp: less_tag_iff_bit bit_simps tag_mask_bit)

lemma set_cleared_tag: "\<not> w < (tag_mask :: 'a::len word) \<Longrightarrow> (w AND NOT tag_mask) OR tag_mask = w"
  by (rule bit_word_eqI) (auto simp: less_tag_iff_bit bit_simps tag_mask_bit)

lemma or_tag_tagged: "\<not> (w OR tag_mask) < (tag_mask :: 'a::len word)"
  by (simp add: less_tag_iff_bit bit_simps tag_mask_bit)

lemma and_not_tag_less: "w AND NOT tag_mask < (tag_mask :: 'a::len word)"
  by (simp add: less_tag_iff_bit bit_simps tag_mask_bit)

lemma tag_mask_le_LAST: "(tag_mask :: 'a::len word) \<le> LAST"
  by (simp add: LAST_def)


lemma tag_mask_neq_0 [simp]: "(tag_mask :: 'a::len word) \<noteq> 0"
proof
  assume "(tag_mask :: 'a word) = 0"
  then have "\<not> bit (tag_mask :: 'a word) (LENGTH('a) - 1)"
    by simp
  then show False
    by (simp add: tag_mask_bit)
qed


section \<open>Token lists and word sequences\<close>

lemma render_Nil [simp]: "render [] = []"
  by (simp add: render_def)

lemma render_Cons: "render (t # ts) = render_tok t @ render ts"
  by (simp add: render_def)

lemma render_append: "render (ts @ us) = render ts @ render us"
  by (simp add: render_def)

lemma tok_ok_fst_less: "tok_ok t \<Longrightarrow> fst (tok_range t) < tag_mask"
  by (cases t) auto

lemma tok_ok_range: "tok_ok t \<Longrightarrow> fst (tok_range t) < snd (tok_range t) \<and> snd (tok_range t) < tag_mask"
  by (cases t) auto

lemma decode_render_tok:
  assumes "tok_ok t"
  shows "decode (render_tok t @ ws) = map_option ((#) (tok_range t)) (decode ws)"
proof (cases t)
  case (Sgl a)
  with assms have "a < tag_mask" by auto
  then have "tag_mask AND a = 0" by (simp add: tag_and_eq_0_iff)
  with Sgl show ?thesis by simp
next
  case (Rng a b)
  with assms have a: "a < tag_mask" and b: "b < tag_mask" by auto
  from Rng a b show ?thesis by (simp add: clear_tag)
qed

lemma decode_render: "list_all tok_ok ts \<Longrightarrow> decode (render ts) = Some (map tok_range ts)"
  by (induction ts) (simp_all add: render_Cons decode_render_tok)

lemma paired_render_tok:
  assumes "tok_ok t"
  shows "paired (render_tok t @ ws) = paired ws"
proof (cases t)
  case (Sgl a)
  with assms have "a < tag_mask" by auto
  then have "tag_mask AND a = 0" by (simp add: tag_and_eq_0_iff)
  with Sgl show ?thesis by simp
next
  case (Rng a b)
  from Rng show ?thesis by simp
qed

lemma paired_render: "list_all tok_ok ts \<Longrightarrow> paired (render ts)"
  by (induction ts) (simp_all add: render_Cons paired_render_tok)

lemma well_formed_render: "toks_ok ts \<Longrightarrow> well_formed (render ts)"
  by (auto simp: toks_ok_def well_formed_def paired_render decode_render ranges_ok_def
                 list_all_iff dest: tok_ok_range)

lemma ranges_ok_Cons: "ranges_ok (r # rs) \<Longrightarrow> ranges_ok rs"
  by (simp add: ranges_ok_def)

lemma well_formed_tokens:
  "well_formed ws \<Longrightarrow> \<exists>ts. ws = render ts \<and> toks_ok ts"
proof (induction ws rule: paired.induct)
  case 1
  have "toks_ok ([] :: 'a word tok list)" by (simp add: toks_ok_def)
  then show ?case by (metis render_Nil)
next
  case (2 w ws)
  show ?case
  proof (cases "tag_mask AND w \<noteq> 0")
    case True
    with 2(3) obtain w2 ws' where ws: "ws = w2 # ws'"
      by (cases ws) (auto simp: well_formed_def)
    from 2(3) True ws have t2: "tag_mask AND w2 \<noteq> 0" and p: "paired ws'"
      by (auto simp: well_formed_def)
    from 2(3) True ws obtain rs where d: "decode ws' = Some rs"
      and ok: "ranges_ok ((w AND NOT tag_mask, w2 AND NOT tag_mask) # rs)"
      by (auto simp: well_formed_def split: option.splits)
    from p d ok have "well_formed ws'"
      by (auto simp: well_formed_def dest: ranges_ok_Cons)
    with 2(1) True ws obtain ts where ts: "ws' = render ts" "toks_ok ts"
      by blast
    let ?t = "Rng (w AND NOT tag_mask) (w2 AND NOT tag_mask)"
    from True t2 have "render_tok ?t = [w, w2]"
      by (simp add: set_cleared_tag tag_and_eq_0_iff)
    with ws ts have r: "w # ws = render (?t # ts)"
      by (simp add: render_Cons)
    from ok have tok: "tok_ok ?t"
      by (simp add: ranges_ok_def)
    from ts d have "rs = map tok_range ts"
      by (simp add: decode_render toks_ok_def)
    with ok tok ts(2) have "toks_ok (?t # ts)"
      by (simp add: toks_ok_def ranges_ok_def)
    with r show ?thesis by blast
  next
    case False
    with 2(3) have p: "paired ws"
      by (simp add: well_formed_def)
    from 2(3) False obtain rs where d: "decode ws = Some rs"
      and ok: "ranges_ok ((w, w + 1) # rs)"
      by (auto simp: well_formed_def split: option.splits)
    from p d ok have "well_formed ws"
      by (auto simp: well_formed_def dest: ranges_ok_Cons)
    with 2(2) False obtain ts where ts: "ws = render ts" "toks_ok ts"
      by blast
    have r: "w # ws = render (Sgl w # ts)"
      using ts by (simp add: render_Cons)
    from ok have tok: "tok_ok (Sgl w)"
      by (simp add: ranges_ok_def)
    from ts d have "rs = map tok_range ts"
      by (simp add: decode_render toks_ok_def)
    with ok tok ts(2) have "toks_ok (Sgl w # ts)"
      by (simp add: toks_ok_def ranges_ok_def)
    with r show ?thesis by blast
  qed
qed

section \<open>Appending to a rendered token list\<close>

lemma promoted_diff_uint: "a \<le> b \<Longrightarrow> promoted_diff b a = uint b - uint a"
  by (auto simp: promoted_diff_def uint_sub_lem[THEN iffD1] word_le_def)

lemma promoted_diff_pos: "f \<le> l \<Longrightarrow> 0 < promoted_diff l f \<longleftrightarrow> f < l"
  by (simp add: promoted_diff_uint word_less_def)

lemma promoted_diff_zero: "f \<le> l \<Longrightarrow> promoted_diff l f = 0 \<longleftrightarrow> f = l"
  by (auto simp: promoted_diff_uint word_uint_eq_iff)

lemma promoted_diff_one:
  assumes "f \<le> l"
  shows "promoted_diff l f = 1 \<longleftrightarrow> l = f + 1"
proof
  assume "promoted_diff l f = 1"
  with assms have "uint l = uint f + 1"
    by (simp add: promoted_diff_uint)
  then have "(word_of_int (uint l) :: 'a word) = word_of_int (uint f + 1)"
    by simp
  then show "l = f + 1"
    by simp
next
  assume l: "l = f + 1"
  with assms have "f < l"
    by (metis add_cancel_right_right order_le_imp_less_or_eq zero_neq_one)
  from word_less_Suc_unat [OF this] have "uint (f + 1) = uint f + 1"
    by (metis of_nat_Suc of_nat_unat add.commute)
  with l assms show "promoted_diff l f = 1"
    by (simp add: promoted_diff_uint)
qed

lemma word_of_promoted_diff:
  assumes "f \<le> l"
  shows "(word_of_int (promoted_diff l f) :: size_type) = of_nat (unat l - unat f)"
proof -
  from assms have le: "unat f \<le> unat l"
    by (simp add: word_le_nat_alt)
  have "uint l - uint f = int (unat l - unat f)"
    using le by (simp add: of_nat_diff)
  with assms show ?thesis
    by (simp only: promoted_diff_uint of_int_of_nat_eq)
qed

lemma and_tag_pos_iff: "0 < (w AND tag_mask) \<longleftrightarrow> \<not> w < (tag_mask :: 'a::len word)"
  by (simp add: and_tag_eq_0_iff flip: word_neq_0_conv)

lemma last_render_snoc:
  "last (render (ts @ [t])) = (case t of Sgl a \<Rightarrow> a | Rng a b \<Rightarrow> b OR tag_mask)"
  by (cases t) (simp_all add: render_append render_Cons)

lemma butlast_render_snoc:
  "butlast (render (ts @ [t]))
     = (case t of Sgl a \<Rightarrow> render ts | Rng a b \<Rightarrow> render ts @ [a OR tag_mask])"
  by (cases t) (simp_all add: render_append render_Cons butlast_append)

lemma render_snoc_nonempty: "render (ts @ [t]) \<noteq> []"
  by (cases t) (simp_all add: render_append render_Cons)

lemma pred_eq_iff: "(a :: 'a::len word) = f - 1 \<longleftrightarrow> a + 1 = f"
  by (simp add: eq_diff_eq)

lemma push_back_range_render:
  assumes ok: "list_all tok_ok ts" and rv: "rangeVect c = render ts"
    and fl: "f \<le> l" and f: "f < tag_mask" and l: "l < tag_mask"
  shows "push_back_range c (f, l)
           = Inr (c\<lparr>length_opt := map_option (\<lambda>n. n + of_nat (unat l - unat f)) (length_opt c),
                    rangeVect := render (apush ts (f, l))\<rparr>)"
proof (cases ts rule: rev_cases)
  case Nil
  with rv f l fl show ?thesis
    by (auto simp: push_back_range_def Let_def and_tag_eq_0_iff and_tag_pos_iff word_of_promoted_diff
                   promoted_diff_zero promoted_diff_one apush_def render_Cons)
next
  case (snoc ts0 t)
  from ok snoc have t: "tok_ok t"
    by simp
  show ?thesis
  proof (cases t)
    case (Sgl a)
    with t have a: "a < tag_mask"
      by auto
    then have cl: "a AND NOT tag_mask = a"
      by (simp add: clear_untagged)
    from rv snoc Sgl have la: "last (rangeVect c) = a" and bl: "butlast (rangeVect c) = render ts0"
      and ne: "rangeVect c \<noteq> []"
      by (simp_all add: last_render_snoc butlast_render_snoc render_snoc_nonempty)
    from f l fl a la bl ne cl rv snoc Sgl show ?thesis
      by (auto simp: push_back_range_def Let_def and_tag_eq_0_iff and_tag_pos_iff word_of_promoted_diff
                     promoted_diff_zero promoted_diff_one promoted_diff_pos apush_def
                     render_append render_Cons pred_eq_iff)
  next
    case (Rng a b)
    with t have b: "b < tag_mask"
      by auto
    then have cl: "(b OR tag_mask) AND NOT tag_mask = b"
      by (simp add: clear_tag)
    note tg = or_tag_tagged [of b]
    from rv snoc Rng have la: "last (rangeVect c) = b OR tag_mask"
      and bl: "butlast (rangeVect c) = render ts0 @ [a OR tag_mask]"
      and ne: "rangeVect c \<noteq> []"
      by (simp_all add: last_render_snoc butlast_render_snoc render_snoc_nonempty)
    from f l fl la bl ne tg cl rv snoc Rng show ?thesis
      by (auto simp: push_back_range_def Let_def and_tag_eq_0_iff and_tag_pos_iff word_of_promoted_diff
                     promoted_diff_zero promoted_diff_one promoted_diff_pos apush_def
                     render_append render_Cons)
  qed
qed

lemma push_back_value_render:
  assumes ok: "list_all tok_ok ts" and rv: "rangeVect c = render ts" and v: "v < tag_mask"
  shows "push_back_value c v
           = Inr (c\<lparr>length_opt := map_option (\<lambda>n. n + 1) (length_opt c),
                    rangeVect := render (apush ts (v, v + 1))\<rparr>)"
proof (cases ts rule: rev_cases)
  case Nil
  with rv v show ?thesis
    by (auto simp: push_back_value_def Let_def and_tag_eq_0_iff and_tag_pos_iff apush_def render_Cons)
next
  case (snoc ts0 t)
  from ok snoc have t: "tok_ok t"
    by simp
  show ?thesis
  proof (cases t)
    case (Sgl a)
    with t have a: "a < tag_mask"
      by auto
    then have cl: "a AND NOT tag_mask = a"
      by (simp add: clear_untagged)
    from rv snoc Sgl have la: "last (rangeVect c) = a" and bl: "butlast (rangeVect c) = render ts0"
      and ne: "rangeVect c \<noteq> []"
      by (simp_all add: last_render_snoc butlast_render_snoc render_snoc_nonempty)
    from v a la bl ne cl rv snoc Sgl show ?thesis
      by (auto simp: push_back_value_def Let_def and_tag_eq_0_iff and_tag_pos_iff apush_def
                     render_append render_Cons pred_eq_iff)
  next
    case (Rng a b)
    with t have b: "b < tag_mask"
      by auto
    then have cl: "(b OR tag_mask) AND NOT tag_mask = b"
      by (simp add: clear_tag)
    note tg = or_tag_tagged [of b]
    from rv snoc Rng have la: "last (rangeVect c) = b OR tag_mask"
      and bl: "butlast (rangeVect c) = render ts0 @ [a OR tag_mask]"
      and ne: "rangeVect c \<noteq> []"
      by (simp_all add: last_render_snoc butlast_render_snoc render_snoc_nonempty)
    from v la bl ne tg cl rv snoc Rng show ?thesis
      by (auto simp: push_back_value_def Let_def and_tag_eq_0_iff and_tag_pos_iff apush_def
                     render_append render_Cons)
  qed
qed

section \<open>Properties of the abstract append\<close>

lemma sorted_wrt_snoc:
  "sorted_wrt P (xs @ [y]) \<longleftrightarrow> sorted_wrt P xs \<and> (\<forall>x\<in>set xs. P x y)"
  by (simp add: sorted_wrt_append)

lemma toks_ok_snoc_bound:
  assumes "toks_ok (ts @ [t])" and "x \<in> set ts"
  shows "snd (tok_range x) < fst (tok_range t)"
  using assms by (auto simp: toks_ok_def sorted_wrt_append)

lemma toks_ok_butlast: "toks_ok (ts @ [t]) \<Longrightarrow> toks_ok ts"
  by (auto simp: toks_ok_def sorted_wrt_append)

lemma toks_ok_last: "toks_ok (ts @ [t]) \<Longrightarrow> tok_ok t"
  by (auto simp: toks_ok_def)

lemma new_tok_range:
  "tok_range (if l = f + 1 then Sgl f else Rng f l) = (f, l)"
  by simp

lemma new_tok_ok:
  "f < l \<Longrightarrow> l < tag_mask \<Longrightarrow> tok_ok (if l = f + 1 then Sgl f else Rng f l)"
  by auto

lemma apush_toks_ok:
  assumes ok: "toks_ok ts" and fl: "f \<le> l" and l: "l < tag_mask"
    and mono: "ts \<noteq> [] \<longrightarrow> snd (tok_range (last ts)) \<le> f"
  shows "toks_ok (apush ts (f, l))"
proof (cases "f = l")
  case True
  with ok show ?thesis by (simp add: apush_def)
next
  case False
  with fl have flt: "f < l" by simp
  show ?thesis
  proof (cases ts rule: rev_cases)
    case Nil
    with flt l False show ?thesis
      by (auto simp: apush_def toks_ok_def)
  next
    case (snoc ts0 t)
    from ok snoc have t: "tok_ok t" and ok0: "toks_ok ts0"
      by (auto dest: toks_ok_last toks_ok_butlast)
    from ok snoc have before: "\<forall>x\<in>set ts0. snd (tok_range x) < fst (tok_range t)"
      by (auto dest: toks_ok_snoc_bound)
    from t have tr: "fst (tok_range t) < snd (tok_range t)"
      by (simp add: tok_ok_range)
    show ?thesis
    proof (cases "snd (tok_range t) = f")
      case True
      with tr flt have "fst (tok_range t) < l"
        by simp
      with l have "tok_ok (Rng (fst (tok_range t)) l)"
        by simp
      with ok0 before have "toks_ok (ts0 @ [Rng (fst (tok_range t)) l])"
        by (simp add: toks_ok_def sorted_wrt_append)
      with snoc True False show ?thesis
        by (simp add: apush_def)
    next
      case False
      with mono snoc have "snd (tok_range t) < f"
        by simp
      with tr before have "\<forall>x\<in>set ts. snd (tok_range x) < f"
        using snoc by auto
      with ok new_tok_ok [OF flt l]
      have "toks_ok (ts @ [if l = f + 1 then Sgl f else Rng f l])"
        unfolding toks_ok_def
        by (simp add: sorted_wrt_append del: tok_range.simps tok_ok.simps split del: if_split)
           (auto split: if_splits)
      with snoc False \<open>f \<noteq> l\<close> show ?thesis
        by (auto simp: apush_def split: if_splits)
    qed
  qed
qed

lemma ranges_set_Nil [simp]: "ranges_set [] = {}"
  by (simp add: ranges_set_def)

lemma ranges_set_Cons: "ranges_set (r # rs) = {fst r..<snd r} \<union> ranges_set rs"
  by (simp add: ranges_set_def)

lemma ranges_set_append: "ranges_set (rs @ rs') = ranges_set rs \<union> ranges_set rs'"
  by (simp add: ranges_set_def)

lemma apush_ranges_set:
  assumes ok: "toks_ok ts" and fl: "f \<le> l"
  shows "ranges_set (map tok_range (apush ts (f, l))) = ranges_set (map tok_range ts) \<union> {f..<l}"
proof (cases "f = l")
  case True
  then show ?thesis by (simp add: apush_def)
next
  case False
  show ?thesis
  proof (cases "ts \<noteq> [] \<and> snd (tok_range (last ts)) = f")
    case True
    then obtain ts0 t where snoc: "ts = ts0 @ [t]"
      by (metis append_butlast_last_id)
    with True have b: "snd (tok_range t) = f"
      by simp
    from ok snoc have "tok_ok t"
      by (auto dest: toks_ok_last)
    then have "fst (tok_range t) \<le> snd (tok_range t)"
      by (simp add: tok_ok_range less_imp_le)
    with b fl have "{fst (tok_range t)..<f} \<union> {f..<l} = {fst (tok_range t)..<l}"
      by (simp add: ivl_disj_un_two)
    with snoc b False show ?thesis
      by (auto simp: apush_def ranges_set_append ranges_set_Cons)
  next
    case False
    with \<open>f \<noteq> l\<close> have "apush ts (f, l) = ts @ [if l = f + 1 then Sgl f else Rng f l]"
      by (auto simp: apush_def)
    then show ?thesis
      by (simp add: ranges_set_append ranges_set_Cons new_tok_range Un_commute
               del: tok_range.simps split del: if_split)
  qed
qed

lemma apush_canonical:
  assumes can: "list_all tok_canonical ts" and ok: "toks_ok ts" and fl: "f \<le> l"
  shows "list_all tok_canonical (apush ts (f, l))"
proof (cases "f = l")
  case True
  with can show ?thesis by (simp add: apush_def)
next
  case False
  with fl have flt: "f < l" by simp
  show ?thesis
  proof (cases "ts \<noteq> [] \<and> snd (tok_range (last ts)) = f")
    case True
    then obtain ts0 t where snoc: "ts = ts0 @ [t]"
      by (metis append_butlast_last_id)
    with True have b: "snd (tok_range t) = f"
      by simp
    from ok snoc have "tok_ok t"
      by (auto dest: toks_ok_last)
    with b have "fst (tok_range t) < f"
      by (metis tok_ok_range)
    then have "fst (tok_range t) + 1 \<le> f"
      by (rule inc_le)
    with flt have "l \<noteq> fst (tok_range t) + 1"
      by auto
    with can snoc b False show ?thesis
      by (simp add: apush_def)
  next
    case False
    with \<open>f \<noteq> l\<close> have "apush ts (f, l) = ts @ [if l = f + 1 then Sgl f else Rng f l]"
      by (auto simp: apush_def)
    with can show ?thesis
      by simp
  qed
qed

lemma apush_ranges_length:
  assumes ok: "toks_ok ts" and fl: "f \<le> l"
  shows "ranges_length (map tok_range (apush ts (f, l)))
           = ranges_length (map tok_range ts) + (unat l - unat f)"
proof (cases "f = l")
  case True
  then show ?thesis by (simp add: apush_def)
next
  case False
  show ?thesis
  proof (cases "ts \<noteq> [] \<and> snd (tok_range (last ts)) = f")
    case True
    then obtain ts0 t where snoc: "ts = ts0 @ [t]"
      by (metis append_butlast_last_id)
    with True have b: "snd (tok_range t) = f"
      by simp
    from ok snoc have "tok_ok t"
      by (auto dest: toks_ok_last)
    then have "fst (tok_range t) \<le> snd (tok_range t)"
      by (simp add: tok_ok_range less_imp_le)
    with b fl have "unat (fst (tok_range t)) \<le> unat f" "unat f \<le> unat l"
      by (simp_all add: word_le_nat_alt)
    with snoc b False show ?thesis
      by (simp add: apush_def ranges_length_def)
  next
    case False
    with \<open>f \<noteq> l\<close> have "apush ts (f, l) = ts @ [if l = f + 1 then Sgl f else Rng f l]"
      by (auto simp: apush_def)
    then show ?thesis
      by (simp add: ranges_length_def new_tok_range del: tok_range.simps split del: if_split)
  qed
qed

lemma tail_last_render:
  assumes "toks_ok ts"
  shows "tail_last (render ts) = (if ts = [] then 0 else snd (tok_range (last ts)))"
proof -
  from assms have "decode (render ts) = Some (map tok_range ts)"
    by (simp add: decode_render toks_ok_def)
  then show ?thesis
    by (cases ts) (simp_all add: tail_last_def last_map)
qed

lemma tok_range_inj:
  assumes "tok_canonical s" and "tok_canonical t" and "tok_range s = tok_range t"
  shows "s = t"
  using assms by (cases s; cases t) auto

lemma map_tok_range_inj:
  "list_all tok_canonical ss \<Longrightarrow> list_all tok_canonical ts \<Longrightarrow>
     map tok_range ss = map tok_range ts \<Longrightarrow> ss = ts"
proof (induction ss arbitrary: ts)
  case Nil
  then show ?case by simp
next
  case (Cons s ss)
  then obtain t ts' where ts: "ts = t # ts'"
    by (cases ts) auto
  with Cons show ?case
    by (auto dest: tok_range_inj)
qed

section \<open>The iteration yields the decoded ranges\<close>

lemma ebind_Inr [simp]: "ebind (Inr x) f = f x"
  by (simp add: ebind_def)

lemma ebind_Inl [simp]: "ebind (Inl e) f = Inl e"
  by (simp add: ebind_def)

lemma ebind_assoc: "ebind (ebind m f) g = ebind m (\<lambda>x. ebind (f x) g)"
  by (cases m) simp_all

lemma calculate_value_make:
  "calculate_value vect \<lparr>base_iter = b, end_iter = e, current_value = cv\<rparr> = make_iterator vect b e"
  by (simp add: make_iterator_def calculate_value_def ebind_def split: sum.splits)

lemma iterate_at_end: "base_iter it = base_iter e \<Longrightarrow> iterate vect it e = Inr []"
  by (subst iterate.simps) (simp add: iter_ne_def)

lemma iterate_step:
  assumes "base_iter it \<noteq> base_iter e" and "deref it = Inr r" and "pre_inc vect it = m"
  shows "iterate vect it e = ebind (ebind m (\<lambda>it'. iterate vect it' e)) (\<lambda>rs. Inr (r # rs))"
  using assms by (subst iterate.simps) (simp add: iter_ne_def ebind_assoc)

lemma iterate_from:
  assumes e: "base_iter e = length vect"
  shows "i \<le> length vect \<Longrightarrow>
    ebind (make_iterator vect i (length vect)) (\<lambda>it. iterate vect it e)
      = (case decode (drop i vect) of None \<Rightarrow> Inl OutOfBounds | Some rs \<Rightarrow> Inr rs)"
proof (induction "length vect - i" arbitrary: i rule: less_induct)
  case less
  show ?case
  proof (cases "i = length vect")
    case True
    then have "make_iterator vect i (length vect)
                 = Inr \<lparr>base_iter = length vect, end_iter = length vect, current_value = (0, 0)\<rparr>"
      by (simp add: make_iterator_def calculate_value_def)
    with True e show ?thesis
      by (simp add: iterate_at_end)
  next
    case False
    with less.prems have lt: "i < length vect"
      by simp
    then have dr: "drop i vect = vect ! i # drop (Suc i) vect"
      by (simp add: Cons_nth_drop_Suc)
    let ?it0 = "\<lparr>base_iter = i, end_iter = length vect, current_value = (0 :: 'a word, 0 :: 'a word)\<rparr>"
    show ?thesis
    proof (cases "tag_mask AND vect ! i \<noteq> 0")
      case untagged: False
      let ?it = "?it0\<lparr>current_value := (vect ! i, vect ! i + 1)\<rparr>"
      from lt untagged have mk: "make_iterator vect i (length vect) = Inr ?it"
        by (simp add: make_iterator_def calculate_value_def read_at_def)
      from lt untagged have adv: "pre_inc vect ?it = make_iterator vect (Suc i) (length vect)"
        by (simp add: pre_inc_def advance_def read_at_def calculate_value_make)
      from lt e have ne: "base_iter ?it \<noteq> base_iter e" and de: "deref ?it = Inr (vect ! i, vect ! i + 1)"
        by (simp_all add: deref_def)
      from lt have ih: "ebind (make_iterator vect (Suc i) (length vect)) (\<lambda>it. iterate vect it e)
          = (case decode (drop (Suc i) vect) of None \<Rightarrow> Inl OutOfBounds | Some rs \<Rightarrow> Inr rs)"
        by (intro less.hyps) simp_all
      have "ebind (make_iterator vect i (length vect)) (\<lambda>it. iterate vect it e) = iterate vect ?it e"
        by (simp only: mk ebind_Inr)
      also have "\<dots> = ebind (case decode (drop (Suc i) vect) of None \<Rightarrow> Inl OutOfBounds | Some rs \<Rightarrow> Inr rs)
                          (\<lambda>rs. Inr ((vect ! i, vect ! i + 1) # rs))"
        by (simp only: iterate_step [OF ne de adv] ih)
      also have "\<dots> = (case decode (drop i vect) of None \<Rightarrow> Inl OutOfBounds | Some rs \<Rightarrow> Inr rs)"
        using untagged by (simp add: dr split: option.splits)
      finally show ?thesis .
    next
      case tagged: True
      show ?thesis
      proof (cases "Suc i < length vect")
        case False
        with lt tagged have "make_iterator vect i (length vect) = Inl OutOfBounds"
          by (simp add: make_iterator_def calculate_value_def read_at_def)
        moreover from False lt have "drop (Suc i) vect = []"
          by simp
        ultimately show ?thesis
          using dr tagged by simp
      next
        case True
        then have dr2: "drop (Suc i) vect = vect ! Suc i # drop (Suc (Suc i)) vect"
          by (simp add: Cons_nth_drop_Suc)
        let ?cv = "(vect ! i AND NOT tag_mask, vect ! Suc i AND NOT tag_mask)"
        let ?it = "?it0\<lparr>current_value := ?cv\<rparr>"
        from lt True tagged have mk: "make_iterator vect i (length vect) = Inr ?it"
          by (simp add: make_iterator_def calculate_value_def read_at_def)
        from lt tagged have adv: "pre_inc vect ?it = make_iterator vect (Suc (Suc i)) (length vect)"
          by (simp add: pre_inc_def advance_def read_at_def calculate_value_make)
        from lt e have ne: "base_iter ?it \<noteq> base_iter e" and de: "deref ?it = Inr ?cv"
          by (simp_all add: deref_def)
        from True have ih: "ebind (make_iterator vect (Suc (Suc i)) (length vect)) (\<lambda>it. iterate vect it e)
            = (case decode (drop (Suc (Suc i)) vect) of None \<Rightarrow> Inl OutOfBounds | Some rs \<Rightarrow> Inr rs)"
          by (intro less.hyps) simp_all
        have "ebind (make_iterator vect i (length vect)) (\<lambda>it. iterate vect it e) = iterate vect ?it e"
          by (simp only: mk ebind_Inr)
        also have "\<dots> = ebind (case decode (drop (Suc (Suc i)) vect) of None \<Rightarrow> Inl OutOfBounds | Some rs \<Rightarrow> Inr rs)
                            (\<lambda>rs. Inr (?cv # rs))"
          by (simp only: iterate_step [OF ne de adv] ih)
        also have "\<dots> = (case decode (drop i vect) of None \<Rightarrow> Inl OutOfBounds | Some rs \<Rightarrow> Inr rs)"
          using tagged by (simp add: dr dr2 split: option.splits)
        finally show ?thesis .
      qed
    qed
  qed
qed

lemma ranges_of_decode:
  "ranges_of vect = (case decode vect of None \<Rightarrow> Inl OutOfBounds | Some rs \<Rightarrow> Inr rs)"
proof -
  have ce: "cend vect = Inr \<lparr>base_iter = length vect, end_iter = length vect, current_value = (0, 0)\<rparr>"
    by (simp add: cend_def make_iterator_def calculate_value_def)
  have "ebind (make_iterator vect 0 (length vect))
          (\<lambda>it. iterate vect it \<lparr>base_iter = length vect, end_iter = length vect, current_value = (0, 0)\<rparr>)
        = (case decode (drop 0 vect) of None \<Rightarrow> Inl OutOfBounds | Some rs \<Rightarrow> Inr rs)"
    by (rule iterate_from) simp_all
  with ce show ?thesis
    by (simp add: ranges_of_def cbegin_def)
qed

section \<open>Appending to a well-formed container\<close>

lemma push_back_range_tokens:
  assumes ok: "toks_ok ts" and rv: "rangeVect c = render ts" and pre: "range_precondition c (f, l)"
  shows "push_back_range c (f, l)
           = Inr (c\<lparr>length_opt := map_option (\<lambda>n. n + of_nat (unat l - unat f)) (length_opt c),
                    rangeVect := render (apush ts (f, l))\<rparr>)"
    and "toks_ok (apush ts (f, l))"
proof -
  from pre have fl: "f \<le> l" and f: "f < tag_mask" and l: "l < tag_mask"
    and tl: "tail_last (rangeVect c) \<le> f"
    by (simp_all add: range_precondition_def)
  from ok rv fl f l show "push_back_range c (f, l)
           = Inr (c\<lparr>length_opt := map_option (\<lambda>n. n + of_nat (unat l - unat f)) (length_opt c),
                    rangeVect := render (apush ts (f, l))\<rparr>)"
    by (simp add: push_back_range_render toks_ok_def)
  from tl rv ok have "ts \<noteq> [] \<longrightarrow> snd (tok_range (last ts)) \<le> f"
    by (auto simp: tail_last_render)
  with ok fl l show "toks_ok (apush ts (f, l))"
    by (rule apush_toks_ok)
qed

lemma unat_succ_diff: "(v :: 'a::len word) < v + 1 \<Longrightarrow> unat (v + 1) - unat v = 1"
  by (simp add: word_less_Suc_unat)

lemma push_back_value_tokens:
  assumes ok: "toks_ok ts" and rv: "rangeVect c = render ts" and pre: "value_precondition c v"
  shows "push_back_value c v
           = Inr (c\<lparr>length_opt := map_option (\<lambda>n. n + 1) (length_opt c),
                    rangeVect := render (apush ts (v, v + 1))\<rparr>)"
    and "toks_ok (apush ts (v, v + 1))"
    and "push_back_value c v = push_back_range c (v, v + 1)"
proof -
  from pre have r: "range_precondition c (v, v + 1)" and lt: "v < v + 1"
    by (simp_all add: value_precondition_def)
  then have v: "v < tag_mask"
    by (simp add: range_precondition_def)
  from ok rv v show 1: "push_back_value c v
           = Inr (c\<lparr>length_opt := map_option (\<lambda>n. n + 1) (length_opt c),
                    rangeVect := render (apush ts (v, v + 1))\<rparr>)"
    by (simp add: push_back_value_render toks_ok_def)
  from ok rv r show "toks_ok (apush ts (v, v + 1))"
    by (rule push_back_range_tokens)
  from push_back_range_tokens(1) [OF ok rv r] 1 unat_succ_diff [OF lt]
  show "push_back_value c v = push_back_range c (v, v + 1)"
    by simp
qed

section \<open>Well-formedness is preserved by push_back\<close>

text \<open>
  C4. On a container whose word sequence is well formed (tagged words in consecutive pairs;
  decoded ranges non-empty, with endpoints below the tag bit, strictly ascending and
  non-touching), every \<open>push_back\<close> that honours the append precondition succeeds and
  leaves a well-formed word sequence. For the range overload the precondition is
  \<open>first \<le> last\<close>, both endpoints below \<open>MASK\<close>, and \<open>first\<close> not below the last stored
  endpoint; for the single-value overload it is the same for the range from \<open>v\<close> to \<open>v + 1\<close>.
\<close>

theorem push_back_preserves_well_formed:
  assumes "well_formed (rangeVect c)"
  shows "(range_precondition c val \<longrightarrow>
            (\<exists>c'. push_back_range c val = Inr c' \<and> well_formed (rangeVect c')))
       \<and> (value_precondition c v \<longrightarrow>
            (\<exists>c'. push_back_value c v = Inr c' \<and> well_formed (rangeVect c')))"
proof -
  from assms obtain ts where rv: "rangeVect c = render ts" and ok: "toks_ok ts"
    by (auto dest: well_formed_tokens)
  obtain f l where val: "val = (f, l)"
    by (cases val)
  have "\<exists>c'. push_back_range c val = Inr c' \<and> well_formed (rangeVect c')"
    if pre: "range_precondition c val"
  proof -
    from pre val have p: "range_precondition c (f, l)" by simp
    from push_back_range_tokens [OF ok rv p] val show ?thesis
      by (simp add: well_formed_render)
  qed
  moreover have "\<exists>c'. push_back_value c v = Inr c' \<and> well_formed (rangeVect c')"
    if pre: "value_precondition c v"
    using push_back_value_tokens(1,2) [OF ok rv pre] by (simp add: well_formed_render)
  ultimately show ?thesis
    by blast
qed

lemma tag_mask_8: "(tag_mask :: 8 word) = 128"
  by (simp add: tag_mask_eq)

theorem push_back_preserves_well_formed_witness:
  "well_formed (rangeVect \<lparr>rangeVect = [3, 133, 137 :: 8 word], length_opt = None\<rparr>)
   \<and> range_precondition \<lparr>rangeVect = [3, 133, 137 :: 8 word], length_opt = None\<rparr> (9, 12)
   \<and> value_precondition \<lparr>rangeVect = [3, 133, 137 :: 8 word], length_opt = None\<rparr> 9
   \<and> (\<exists>c'. push_back_range \<lparr>rangeVect = [3, 133, 137 :: 8 word], length_opt = None\<rparr> (9, 12)
              = Inr c' \<and> well_formed (rangeVect c'))
   \<and> (\<exists>c'. push_back_value \<lparr>rangeVect = [3, 133, 137 :: 8 word], length_opt = None\<rparr> 9
              = Inr c' \<and> well_formed (rangeVect c'))"
proof -
  let ?c = "\<lparr>rangeVect = [3, 133, 137 :: 8 word], length_opt = None\<rparr>"
  have wf: "well_formed (rangeVect ?c)"
    by (simp add: well_formed_def ranges_ok_def tag_mask_8)
  have p1: "range_precondition ?c (9, 12)"
    by (simp add: range_precondition_def tail_last_def tag_mask_8)
  have p2: "value_precondition ?c 9"
    by (simp add: value_precondition_def range_precondition_def tail_last_def tag_mask_8)
  from push_back_preserves_well_formed [OF wf, of "(9, 12)" 9] wf p1 p2 show ?thesis
    by blast
qed

section \<open>The encoding boundary\<close>

text \<open>
  C8. The single-value \<open>push_back\<close> accepts \<open>MASK - 1\<close> (127 for \<open>uint8_t\<close>): its assertion
  passes. Pushed after 126 it coalesces with the stored 126 and writes \<open>(127 + 1) | mask\<close>,
  which is the bare tag bit: the stored words 254, 128 decode to the range from 126 to 0,
  and the word sequence is not well formed. The range overload rejects the same range
  (126 to 128) by its assertion on \<open>val.second\<close>, and both overloads reject \<open>MASK\<close>.
\<close>

theorem push_back_value_mask_minus_one:
  "(127 AND tag_mask) = (0 :: 8 word)
   \<and> ebind (push_back_value (empty_irv :: 8 word irv) 126) (\<lambda>c. push_back_value c 127)
       = Inr \<lparr>rangeVect = [254, 128], length_opt = Some 2\<rparr>
   \<and> well_formed [126 :: 8 word]
   \<and> decode [254, 128 :: 8 word] = Some [(126, 0)]
   \<and> \<not> well_formed [254, 128 :: 8 word]
   \<and> push_back_range (empty_irv :: 8 word irv) (126, 128) = Inl AssertionFailed
   \<and> push_back_value (empty_irv :: 8 word irv) 128 = Inl AssertionFailed
   \<and> push_back_range (empty_irv :: 8 word irv) (128, 128) = Inl AssertionFailed"
  by (simp add: push_back_value_def push_back_range_def empty_irv_def ebind_def tag_mask_8
                well_formed_def ranges_ok_def Let_def)

section \<open>The cached length\<close>

lemma total_length_render: "toks_ok ts \<Longrightarrow> total_length (render ts) = ranges_length (map tok_range ts)"
  by (simp add: total_length_def decode_render toks_ok_def)

lemma length_fold:
  assumes "list_all (\<lambda>r. fst r \<le> snd r) rs"
  shows "foldl (\<lambda>acc r. acc + word_of_int (promoted_diff (snd r) (fst r))) (n :: size_type) rs
           = n + of_nat (ranges_length rs)"
  using assms
proof (induction rs arbitrary: n)
  case Nil
  then show ?case by (simp add: ranges_length_def)
next
  case (Cons r rs)
  then have "fst r \<le> snd r" by simp
  from word_of_promoted_diff [OF this] Cons show ?case
    by (simp add: ranges_length_def add.assoc)
qed

lemma irv_length_well_formed:
  assumes "well_formed (rangeVect c)"
  shows "irv_length c =
           (case length_opt c of
              Some n \<Rightarrow> Inr (n, c)
            | None \<Rightarrow> Inr (of_nat (total_length (rangeVect c)),
                            c\<lparr>length_opt := Some (of_nat (total_length (rangeVect c)))\<rparr>))"
proof (cases "length_opt c")
  case (Some n)
  then show ?thesis by (simp add: irv_length_def)
next
  case None
  from assms obtain rs where d: "decode (rangeVect c) = Some rs" and ok: "ranges_ok rs"
    by (auto simp: well_formed_def split: option.splits)
  from ok have "list_all (\<lambda>r. fst r \<le> snd r) rs"
    by (auto simp: ranges_ok_def list_all_iff less_imp_le)
  from length_fold [OF this, of 0] d None show ?thesis
    by (simp add: irv_length_def ranges_of_decode ebind_def total_length_def Let_def)
qed

lemma reachable_cache_ok: "reachable c \<Longrightarrow> cache_ok c"
proof (induction rule: reachable.induct)
  case reachable_empty
  have "well_formed ([] :: 'a word list)"
    by (simp add: well_formed_def ranges_ok_def)
  then show ?case
    by (simp add: cache_ok_def empty_irv_def total_length_def ranges_length_def)
next
  case (reachable_words ws)
  then show ?case
    by (simp add: cache_ok_def from_vector_def)
next
  case (reachable_range c val c')
  obtain f l where val: "val = (f, l)" by (cases val)
  from reachable_range obtain ts where rv: "rangeVect c = render ts" and ok: "toks_ok ts"
    by (auto simp: cache_ok_def dest: well_formed_tokens)
  from reachable_range val have p: "range_precondition c (f, l)" by simp
  then have fl: "f \<le> l" by (simp add: range_precondition_def)
  note pb = push_back_range_tokens [OF ok rv p]
  from pb(1) reachable_range(3) val
  have c': "c' = c\<lparr>length_opt := map_option (\<lambda>n. n + of_nat (unat l - unat f)) (length_opt c),
                    rangeVect := render (apush ts (f, l))\<rparr>"
    by simp
  have tl: "total_length (render (apush ts (f, l))) = total_length (rangeVect c) + (unat l - unat f)"
    using pb(2) ok rv fl by (simp add: total_length_render apush_ranges_length)
  from reachable_range.IH have "\<forall>m. length_opt c = Some m \<longrightarrow> m = of_nat (total_length (rangeVect c))"
    by (simp add: cache_ok_def)
  with c' tl pb(2) show ?case
    by (auto simp: cache_ok_def well_formed_render)
next
  case (reachable_value c v c')
  from reachable_value obtain ts where rv: "rangeVect c = render ts" and ok: "toks_ok ts"
    by (auto simp: cache_ok_def dest: well_formed_tokens)
  note pb = push_back_value_tokens [OF ok rv reachable_value(2)]
  from reachable_value(2) have lt: "v < v + 1"
    by (simp add: value_precondition_def)
  from pb(1) reachable_value(3)
  have c': "c' = c\<lparr>length_opt := map_option (\<lambda>n. n + 1) (length_opt c),
                    rangeVect := render (apush ts (v, v + 1))\<rparr>"
    by simp
  have tl: "total_length (render (apush ts (v, v + 1))) = total_length (rangeVect c) + 1"
    using pb(2) ok rv lt unat_succ_diff [OF lt]
    by (simp add: total_length_render apush_ranges_length less_imp_le)
  from reachable_value.IH have "\<forall>m. length_opt c = Some m \<longrightarrow> m = of_nat (total_length (rangeVect c))"
    by (simp add: cache_ok_def)
  with c' tl pb(2) show ?case
    by (auto simp: cache_ok_def well_formed_render)
next
  case (reachable_length c n c')
  then have wf: "well_formed (rangeVect c)"
    by (simp add: cache_ok_def)
  from irv_length_well_formed [OF wf] reachable_length show ?case
    by (auto simp: cache_ok_def split: option.splits)
qed

text \<open>The sum of the lengths of non-overlapping ascending ranges stays below their last endpoint.\<close>

lemma ranges_length_bound:
  "ranges_ok rs \<Longrightarrow> rs \<noteq> [] \<Longrightarrow> ranges_length rs \<le> unat (snd (last rs))"
proof (induction rs rule: rev_induct)
  case Nil
  then show ?case by simp
next
  case (snoc r rs)
  from snoc.prems have r: "fst r < snd r" and ok: "ranges_ok rs"
    by (auto simp: ranges_ok_def sorted_wrt_append)
  show ?case
  proof (cases "rs = []")
    case True
    then show ?thesis by (simp add: ranges_length_def)
  next
    case False
    with snoc.prems have "snd (last rs) < fst r"
      by (auto simp: ranges_ok_def sorted_wrt_append)
    then have "unat (snd (last rs)) < unat (fst r)"
      by (simp add: word_less_nat_alt)
    moreover from r have "unat (fst r) < unat (snd r)"
      by (simp add: word_less_nat_alt)
    moreover from snoc.IH [OF ok False] have "ranges_length rs \<le> unat (snd (last rs))" .
    ultimately show ?thesis
      by (simp add: ranges_length_def)
  qed
qed

lemma unat_tag_mask: "unat (tag_mask :: 'a::len word) = 2 ^ (LENGTH('a) - 1)"
proof -
  have "(2 :: 'a word) ^ (LENGTH('a) - 1) = of_nat (2 ^ (LENGTH('a) - 1))"
    by simp
  then have "unat (tag_mask :: 'a word) = 2 ^ (LENGTH('a) - 1) mod 2 ^ LENGTH('a)"
    by (simp only: tag_mask_eq unat_of_nat)
  also have "\<dots> = 2 ^ (LENGTH('a) - 1)"
    by (rule mod_less) (simp add: power_strict_increasing_iff)
  finally show ?thesis .
qed

lemma total_length_bound:
  fixes ws :: "'a::len word list"
  assumes "well_formed ws"
  shows "total_length ws < 2 ^ (LENGTH('a) - 1)"
proof -
  from assms obtain rs where d: "decode ws = Some rs" and ok: "ranges_ok rs"
    by (auto simp: well_formed_def split: option.splits)
  show ?thesis
  proof (cases "rs = []")
    case True
    with d show ?thesis by (simp add: total_length_def ranges_length_def)
  next
    case False
    then have "last rs \<in> set rs" by simp
    with ok have "snd (last rs) < tag_mask"
      by (auto simp: ranges_ok_def list_all_iff)
    then have "unat (snd (last rs)) < unat (tag_mask :: 'a word)"
      by (simp add: word_less_nat_alt)
    also have "unat (tag_mask :: 'a word) = 2 ^ (LENGTH('a) - 1)"
      by (rule unat_tag_mask)
    finally show ?thesis
      using ranges_length_bound [OF ok False] d by (simp add: total_length_def)
  qed
qed


text \<open>
  C5. For every container reachable through the public interface (the empty container, a
  container built from a well-formed word sequence, and any sequence of \<open>push_back\<close> calls
  honouring their precondition and of \<open>length()\<close> calls on these), \<open>length()\<close> returns the
  sum of \<open>last - first\<close> over the decoded ranges, as a \<open>size_t\<close>; for element types of at
  most 64 bits this is the sum itself. A cached value, whether kept up to date by
  \<open>push_back\<close> or stored by an earlier \<open>length()\<close>, equals this sum, and \<open>length()\<close> leaves
  it in the cache without changing the stored words.
\<close>

theorem length_is_sum_of_ranges:
  fixes c :: "'a::len word irv"
  assumes "reachable c"
  shows "\<exists>n c'. irv_length c = Inr (n, c')
           \<and> n = of_nat (total_length (rangeVect c))
           \<and> (LENGTH('a) \<le> 64 \<longrightarrow> unat n = total_length (rangeVect c))
           \<and> (\<forall>m. length_opt c = Some m \<longrightarrow> m = n)
           \<and> rangeVect c' = rangeVect c \<and> length_opt c' = Some n"
proof -
  from assms have ok: "cache_ok c"
    by (rule reachable_cache_ok)
  then have wf: "well_formed (rangeVect c)"
    by (simp add: cache_ok_def)
  have small: "unat (of_nat (total_length (rangeVect c)) :: size_type) = total_length (rangeVect c)"
    if "LENGTH('a) \<le> 64"
  proof -
    from that have "LENGTH('a) - 1 < 64"
      by simp
    then have "(2 :: nat) ^ (LENGTH('a) - 1) < 2 ^ 64"
      by (simp only: power_strict_increasing_iff one_less_numeral_iff semiring_norm)
    with total_length_bound [OF wf] have "total_length (rangeVect c) < 2 ^ 64"
      by simp
    then show ?thesis
      by (simp add: unat_of_nat)
  qed
  from irv_length_well_formed [OF wf] ok small show ?thesis
    by (cases "length_opt c") (auto simp: cache_ok_def)
qed

theorem length_is_sum_of_ranges_witness:
  "reachable (from_vector [3, 133, 137 :: 8 word])
   \<and> (\<exists>n c'. irv_length (from_vector [3, 133, 137 :: 8 word]) = Inr (n, c')
         \<and> n = 5 \<and> unat n = total_length [3, 133, 137 :: 8 word]
         \<and> rangeVect c' = [3, 133, 137] \<and> length_opt c' = Some n)"
proof -
  have wf: "well_formed [3, 133, 137 :: 8 word]"
    by (simp add: well_formed_def ranges_ok_def tag_mask_8)
  then have r: "reachable (from_vector [3, 133, 137 :: 8 word])"
    by (rule reachable_words)
  have t: "total_length [3, 133, 137 :: 8 word] = 5"
    by (simp add: total_length_def ranges_length_def tag_mask_8)
  from length_is_sum_of_ranges [OF r] r t show ?thesis
    by (auto simp: from_vector_def)
qed

section \<open>Ascending non-touching ranges are determined by their set\<close>

lemma ranges_set_above:
  assumes "sorted_wrt (\<lambda>r s. snd r < fst s) (r # rs)" and "x \<in> ranges_set rs"
  shows "snd r < x"
proof -
  from assms(2) obtain s where s: "s \<in> set rs" "fst s \<le> x"
    by (auto simp: ranges_set_def)
  with assms(1) have "snd r < fst s"
    by simp
  with s show ?thesis
    by simp
qed

lemma ranges_set_empty_iff:
  assumes "\<forall>r\<in>set rs. fst r < snd r"
  shows "ranges_set rs = {} \<longleftrightarrow> rs = []"
proof
  assume e: "ranges_set rs = {}"
  show "rs = []"
  proof (cases rs)
    case Nil
    then show ?thesis .
  next
    case (Cons r rs')
    with assms have "fst r \<in> ranges_set rs"
      by (auto simp: ranges_set_Cons)
    with e show ?thesis
      by simp
  qed
qed simp

lemma ranges_head_eq:
  assumes s1: "sorted_wrt (\<lambda>r s. snd r < fst s) (r # rs)" and p1: "\<forall>x\<in>set (r # rs). fst x < snd x"
    and s2: "sorted_wrt (\<lambda>r s. snd r < fst s) (r' # rs')" and p2: "\<forall>x\<in>set (r' # rs'). fst x < snd x"
    and eq: "ranges_set (r # rs) = ranges_set (r' # rs')"
  shows "fst r' \<le> fst r \<and> snd r' \<le> snd r"
proof
  from p1 have "fst r \<in> ranges_set (r # rs)"
    by (simp add: ranges_set_Cons)
  with eq have "fst r \<in> {fst r'..<snd r'} \<or> fst r \<in> ranges_set rs'"
    by (simp add: ranges_set_Cons)
  then show le: "fst r' \<le> fst r"
  proof
    assume "fst r \<in> {fst r'..<snd r'}"
    then show ?thesis by simp
  next
    assume "fst r \<in> ranges_set rs'"
    from ranges_set_above [OF s2 this] p2 have "fst r' < fst r"
      by (auto intro: order.strict_trans)
    then show ?thesis by simp
  qed
  show "snd r' \<le> snd r"
  proof (rule ccontr)
    assume "\<not> snd r' \<le> snd r"
    then have lt: "snd r < snd r'"
      by simp
    from p1 have "fst r < snd r"
      by simp
    with le have "fst r' \<le> snd r"
      by (auto intro: order.trans less_imp_le)
    with lt have "snd r \<in> ranges_set (r' # rs')"
      by (simp add: ranges_set_Cons)
    with eq have "snd r \<in> ranges_set (r # rs)"
      by simp
    then have "snd r \<in> ranges_set rs"
      by (simp add: ranges_set_Cons)
    from ranges_set_above [OF s1 this] show False
      by simp
  qed
qed

lemma ranges_tail_set:
  assumes "sorted_wrt (\<lambda>r s. snd r < fst s) (r # rs)"
  shows "ranges_set rs = ranges_set (r # rs) - {fst r..<snd r}"
proof -
  have "x \<notin> {fst r..<snd r}" if "x \<in> ranges_set rs" for x
    using ranges_set_above [OF assms that] by auto
  then show ?thesis
    by (auto simp: ranges_set_Cons)
qed

lemma ranges_unique:
  assumes "sorted_wrt (\<lambda>r s. snd r < fst s) rs" and "\<forall>x\<in>set rs. fst x < snd x"
    and "sorted_wrt (\<lambda>r s. snd r < fst s) rs'" and "\<forall>x\<in>set rs'. fst x < snd x"
    and "ranges_set rs = ranges_set rs'"
  shows "rs = rs'"
  using assms
proof (induction rs arbitrary: rs')
  case Nil
  from Nil(4) have "ranges_set rs' = {} \<longleftrightarrow> rs' = []"
    by (rule ranges_set_empty_iff)
  with Nil(5) show ?case
    by simp
next
  case (Cons r rs)
  from Cons.prems(2) have "ranges_set (r # rs) \<noteq> {}"
    by (simp add: ranges_set_empty_iff)
  with Cons.prems(5) have "rs' \<noteq> []"
    by auto
  then obtain r' rs'' where rs': "rs' = r' # rs''"
    by (cases rs') auto
  from Cons.prems rs' have e1: "ranges_set (r # rs) = ranges_set (r' # rs'')"
    and s2: "sorted_wrt (\<lambda>r s. snd r < fst s) (r' # rs'')"
    and p2: "\<forall>x\<in>set (r' # rs''). fst x < snd x"
    by simp_all
  from ranges_head_eq [OF Cons.prems(1,2) s2 p2 e1]
  have 1: "fst r' \<le> fst r \<and> snd r' \<le> snd r" .
  from ranges_head_eq [OF s2 p2 Cons.prems(1,2) e1 [symmetric]]
  have 2: "fst r \<le> fst r' \<and> snd r \<le> snd r'" .
  from 1 2 have "fst r = fst r'" "snd r = snd r'"
    by (auto intro: order.antisym)
  then have r: "r = r'"
    by (simp add: prod_eq_iff)
  from Cons.prems(1) have "ranges_set rs = ranges_set (r # rs) - {fst r..<snd r}"
    by (rule ranges_tail_set)
  moreover from s2 have "ranges_set rs'' = ranges_set (r' # rs'') - {fst r'..<snd r'}"
    by (rule ranges_tail_set)
  ultimately have "ranges_set rs = ranges_set rs''"
    using e1 r by simp
  moreover from Cons.prems(1,2) s2 p2
  have "sorted_wrt (\<lambda>r s. snd r < fst s) rs" "\<forall>x\<in>set rs. fst x < snd x"
    "sorted_wrt (\<lambda>r s. snd r < fst s) rs''" "\<forall>x\<in>set rs''. fst x < snd x"
    by simp_all
  ultimately have "rs = rs''"
    by (intro Cons.IH)
  with r rs' show ?case
    by simp
qed

lemma toks_ok_ranges:
  "toks_ok ts \<Longrightarrow> sorted_wrt (\<lambda>r s. snd r < fst s) (map tok_range ts)
     \<and> (\<forall>x\<in>set (map tok_range ts). fst x < snd x)"
  by (auto simp: toks_ok_def list_all_iff dest: tok_ok_range)

lemma canonical_tokens_unique:
  assumes "toks_ok ss" and "list_all tok_canonical ss"
    and "toks_ok ts" and "list_all tok_canonical ts"
    and "ranges_set (map tok_range ss) = ranges_set (map tok_range ts)"
  shows "ss = ts"
proof -
  from toks_ok_ranges [OF assms(1)] toks_ok_ranges [OF assms(3)] assms(5)
  have "map tok_range ss = map tok_range ts"
    by (intro ranges_unique) simp_all
  with assms(2,4) show ?thesis
    by (rule map_tok_range_inj)
qed

section \<open>Sequences of push_back calls\<close>

lemma word_singleton_interval:
  fixes v :: "'a::len word"
  assumes "v < v + 1"
  shows "{v..<v + 1} = {v}"
proof -
  have "x = v" if "v \<le> x" and "x < v + 1" for x
  proof -
    from that(2) word_less_Suc_unat [OF assms] have "unat x \<le> unat v"
      by (simp add: word_less_nat_alt)
    with that(1) show ?thesis
      by (simp add: word_le_nat_alt word_unat_eq_iff)
  qed
  with assms show ?thesis
    by auto
qed

lemma push_set_PushValue:
  "value_precondition c v \<Longrightarrow> push_set (PushValue v) = {v..<v + 1}"
  by (simp add: value_precondition_def word_singleton_interval)

lemma push_all_tokens:
  assumes "rangeVect c = render ts" and "toks_ok ts" and "list_all tok_canonical ts"
    and "honours c ps"
  shows "\<exists>c' ts'. push_all c ps = Inr c' \<and> rangeVect c' = render ts' \<and> toks_ok ts'
           \<and> list_all tok_canonical ts'
           \<and> ranges_set (map tok_range ts') = ranges_set (map tok_range ts) \<union> pushed_set ps"
  using assms
proof (induction ps arbitrary: c ts)
  case Nil
  then show ?case
    by (auto simp: pushed_set_def)
next
  case (Cons p ps)
  from Cons.prems(4) have pre: "push_precondition c p"
    by simp
  have "\<exists>c1 r. apply_push c p = Inr c1 \<and> rangeVect c1 = render (apush ts r)
          \<and> toks_ok (apush ts r) \<and> fst r \<le> snd r \<and> push_set p = {fst r..<snd r}"
  proof (cases p)
    case (PushRange val)
    obtain f l where val: "val = (f, l)" by (cases val)
    from pre PushRange val have p: "range_precondition c (f, l)" by simp
    from push_back_range_tokens [OF Cons.prems(2,1) p] p PushRange val show ?thesis
      by (auto simp: range_precondition_def)
  next
    case (PushValue v)
    with pre have p: "value_precondition c v" by simp
    from push_back_value_tokens(1,2) [OF Cons.prems(2,1) p] push_set_PushValue [OF p] p PushValue
    show ?thesis
      by (auto simp: value_precondition_def range_precondition_def)
  qed
  then obtain c1 r where c1: "apply_push c p = Inr c1" "rangeVect c1 = render (apush ts r)"
    "toks_ok (apush ts r)" "fst r \<le> snd r" "push_set p = {fst r..<snd r}"
    by blast
  from Cons.prems(4) c1(1) have h: "honours c1 ps"
    by simp
  obtain f l where r: "r = (f, l)" by (cases r)
  from apush_canonical [OF Cons.prems(3,2), of f l] c1(4) r
  have can: "list_all tok_canonical (apush ts r)"
    by simp
  from apush_ranges_set [OF Cons.prems(2), of f l] c1(4,5) r
  have set1: "ranges_set (map tok_range (apush ts r)) = ranges_set (map tok_range ts) \<union> push_set p"
    by simp
  from Cons.IH [OF c1(2,3) can h] obtain c' ts' where
    "push_all c1 ps = Inr c'" "rangeVect c' = render ts'" "toks_ok ts'" "list_all tok_canonical ts'"
    "ranges_set (map tok_range ts') = ranges_set (map tok_range (apush ts r)) \<union> pushed_set ps"
    by blast
  with c1(1) set1 show ?case
    by (auto simp: pushed_set_def)
qed

lemma push_all_from_empty:
  assumes "honours empty_irv ps"
  shows "\<exists>c' ts'. push_all empty_irv ps = Inr c' \<and> rangeVect c' = render ts' \<and> toks_ok ts'
           \<and> list_all tok_canonical ts'
           \<and> ranges_set (map tok_range ts') = pushed_set ps"
proof -
  have "rangeVect (empty_irv :: 'a word irv) = render []" "toks_ok ([] :: 'a word tok list)"
    "list_all tok_canonical ([] :: 'a word tok list)"
    by (simp_all add: empty_irv_def toks_ok_def)
  from push_all_tokens [OF this assms] show ?thesis
    by simp
qed

text \<open>
  C3. Two sequences of \<open>push_back\<close> calls (either overload), each run on an empty container
  and each honouring the append precondition at every call, that insert the same set of
  integers leave containers with the same stored words: \<open>getBase\<close> gives equal vectors
  and \<open>operator==\<close> holds.
\<close>

theorem push_back_canonical:
  assumes "honours empty_irv ps1" and "honours empty_irv ps2"
    and "pushed_set ps1 = pushed_set ps2"
  shows "\<exists>c1 c2. push_all empty_irv ps1 = Inr c1 \<and> push_all empty_irv ps2 = Inr c2
           \<and> getBase c1 = getBase c2 \<and> irv_eq c1 c2"
proof -
  from push_all_from_empty [OF assms(1)] obtain c1 ts1 where
    1: "push_all empty_irv ps1 = Inr c1" "rangeVect c1 = render ts1" "toks_ok ts1"
       "list_all tok_canonical ts1" "ranges_set (map tok_range ts1) = pushed_set ps1"
    by blast
  from push_all_from_empty [OF assms(2)] obtain c2 ts2 where
    2: "push_all empty_irv ps2 = Inr c2" "rangeVect c2 = render ts2" "toks_ok ts2"
       "list_all tok_canonical ts2" "ranges_set (map tok_range ts2) = pushed_set ps2"
    by blast
  from 1(5) 2(5) assms(3) have "ranges_set (map tok_range ts1) = ranges_set (map tok_range ts2)"
    by simp
  with 1(3,4) 2(3,4) have "ts1 = ts2"
    by (intro canonical_tokens_unique)
  with 1 2 show ?thesis
    by (simp add: getBase_def irv_eq_def)
qed

theorem push_back_canonical_witness:
  "honours (empty_irv :: 8 word irv) [PushValue 3, PushRange (4, 6), PushRange (8, 9)]
   \<and> honours (empty_irv :: 8 word irv) [PushRange (3, 5), PushValue 5, PushRange (6, 6), PushValue 8]
   \<and> pushed_set [PushValue 3, PushRange (4, 6), PushRange (8, 9 :: 8 word)]
       = pushed_set [PushRange (3, 5), PushValue 5, PushRange (6, 6), PushValue 8]
   \<and> (\<exists>c1 c2. push_all (empty_irv :: 8 word irv) [PushValue 3, PushRange (4, 6), PushRange (8, 9)] = Inr c1
         \<and> push_all (empty_irv :: 8 word irv) [PushRange (3, 5), PushValue 5, PushRange (6, 6), PushValue 8] = Inr c2
         \<and> getBase c1 = getBase c2 \<and> irv_eq c1 c2)"
proof -
  have h1: "honours (empty_irv :: 8 word irv) [PushValue 3, PushRange (4, 6), PushRange (8, 9)]"
    by (simp add: empty_irv_def value_precondition_def range_precondition_def tail_last_def
                  push_back_value_def push_back_range_def promoted_diff_def tag_mask_8 Let_def)
  have h2: "honours (empty_irv :: 8 word irv) [PushRange (3, 5), PushValue 5, PushRange (6, 6), PushValue 8]"
    by (simp add: empty_irv_def value_precondition_def range_precondition_def tail_last_def
                  push_back_value_def push_back_range_def promoted_diff_def tag_mask_8 Let_def)
  have i1: "{3 :: 8 word} = {3..<4}" and i2: "{5 :: 8 word} = {5..<6}"
    and i3: "{8 :: 8 word} = {8..<9}"
    using word_singleton_interval [of "3 :: 8 word"] word_singleton_interval [of "5 :: 8 word"]
      word_singleton_interval [of "8 :: 8 word"]
    by simp_all
  have u1: "{3..<4} \<union> {4..<6} = {3..<6 :: 8 word}" and u2: "{3..<5} \<union> {5..<6} = {3..<6 :: 8 word}"
    by (simp_all add: ivl_disj_un_two)
  have s: "pushed_set [PushValue 3, PushRange (4, 6), PushRange (8, 9 :: 8 word)]
       = pushed_set [PushRange (3, 5), PushValue 5, PushRange (6, 6), PushValue 8]"
    unfolding pushed_set_def
    by (simp add: i1 i2 i3 Un_assoc [symmetric] u1 u2 del: ivl_disj_un_two)
  from push_back_canonical [OF h1 h2 s] h1 h2 s show ?thesis
    by blast
qed

section \<open>Ranges of one input\<close>

lemma ranges_set_hd_tl:
  "rs \<noteq> [] \<Longrightarrow> ranges_set rs = {fst (hd rs)..<snd (hd rs)} \<union> ranges_set (tl rs)"
  by (cases rs) (simp_all add: ranges_set_Cons)

lemma asc_tl: "asc rs \<Longrightarrow> asc (tl rs)"
  by (cases rs) (auto simp: asc_def)

lemma asc_hd_pos: "asc rs \<Longrightarrow> rs \<noteq> [] \<Longrightarrow> fst (hd rs) < snd (hd rs)"
  by (cases rs) (auto simp: asc_def)

lemma asc_tl_ge:
  assumes "asc rs" and "x \<in> ranges_set (tl rs)"
  shows "snd (hd rs) \<le> x"
proof (cases rs)
  case Nil
  with assms(2) show ?thesis by simp
next
  case (Cons r rest)
  with assms(2) obtain s where s: "s \<in> set rest" "fst s \<le> x"
    by (auto simp: ranges_set_def)
  with assms(1) Cons have "snd r \<le> fst s"
    by (auto simp: asc_def)
  with s Cons show ?thesis
    by (auto intro: order.trans)
qed

lemma asc_hd_le:
  assumes "asc rs" and "x \<in> ranges_set rs"
  shows "fst (hd rs) \<le> x"
proof -
  from assms(2) have ne: "rs \<noteq> []"
    by auto
  with assms(2) have "x \<in> {fst (hd rs)..<snd (hd rs)} \<or> x \<in> ranges_set (tl rs)"
    by (simp add: ranges_set_hd_tl)
  then show ?thesis
  proof
    assume "x \<in> {fst (hd rs)..<snd (hd rs)}"
    then show ?thesis by simp
  next
    assume "x \<in> ranges_set (tl rs)"
    from asc_tl_ge [OF assms(1) this] asc_hd_pos [OF assms(1) ne] show ?thesis
      by (auto intro: order.trans less_imp_le)
  qed
qed

lemma asc_hd_tl:
  "asc rs \<Longrightarrow> tl rs \<noteq> [] \<Longrightarrow> snd (hd rs) \<le> fst (hd (tl rs))"
  by (cases rs; cases "tl rs") (auto simp: asc_def)

lemma asc_begin_le:
  assumes "asc rs" and "r \<in> set rs"
  shows "fst (hd rs) \<le> fst r"
proof -
  from assms have "fst r \<in> ranges_set rs"
    by (auto simp: asc_def ranges_set_def)
  with assms(1) show ?thesis
    by (rule asc_hd_le)
qed

section \<open>The inner loop of intersect_ranges\<close>

lemma intersect_scan_spec:
  assumes "\<forall>it\<in>set its. it \<noteq> []"
  shows "\<exists>cb' ce' k'. intersect_scan its i cb ce k = Inr (cb', ce', k')
      \<and> cb \<le> cb' \<and> (\<forall>it\<in>set its. fst (hd it) \<le> cb')
      \<and> (cb' = cb \<or> (\<exists>it\<in>set its. cb' = fst (hd it)))
      \<and> ce' \<le> ce \<and> (\<forall>it\<in>set its. ce' \<le> snd (hd it))
      \<and> ((k' = k \<and> ce' = ce)
          \<or> (i \<le> k' \<and> k' - i < length its \<and> snd (hd (its ! (k' - i))) = ce' \<and> ce' < ce))"
  using assms
proof (induction its arbitrary: i cb ce k)
  case Nil
  then show ?case by simp
next
  case (Cons it its)
  then obtain r rest where it: "it = r # rest"
    by (cases it) auto
  let ?cb1 = "if fst r > cb then fst r else cb"
  let ?ce1 = "if snd r < ce then snd r else ce"
  let ?k1 = "if snd r < ce then i else k"
  from Cons.prems have "\<forall>it\<in>set its. it \<noteq> []"
    by simp
  from Cons.IH [OF this, of "i + 1" ?cb1 ?ce1 ?k1]
  obtain cb' ce' k' where s: "intersect_scan its (i + 1) ?cb1 ?ce1 ?k1 = Inr (cb', ce', k')"
    and 1: "?cb1 \<le> cb'" and 2: "\<forall>it\<in>set its. fst (hd it) \<le> cb'"
    and 3: "cb' = ?cb1 \<or> (\<exists>it\<in>set its. cb' = fst (hd it))"
    and 4: "ce' \<le> ?ce1" and 5: "\<forall>it\<in>set its. ce' \<le> snd (hd it)"
    and 6: "(k' = ?k1 \<and> ce' = ?ce1)
          \<or> (i + 1 \<le> k' \<and> k' - (i + 1) < length its
              \<and> snd (hd (its ! (k' - (i + 1)))) = ce' \<and> ce' < ?ce1)"
    by blast
  have idx: "k' - i = Suc (k' - (i + 1))" if "i + 1 \<le> k'"
    using that by arith
  from s it have "intersect_scan (it # its) i cb ce k = Inr (cb', ce', k')"
    by simp
  moreover from 1 have "cb \<le> cb'"
    by (auto split: if_splits intro: order.trans less_imp_le)
  moreover from 1 2 it have "\<forall>x\<in>set (it # its). fst (hd x) \<le> cb'"
    by (auto split: if_splits intro: order.trans)
  moreover from 3 it have "cb' = cb \<or> (\<exists>x\<in>set (it # its). cb' = fst (hd x))"
    by (auto split: if_splits)
  moreover from 4 have "ce' \<le> ce"
    by (auto split: if_splits intro: order.trans less_imp_le)
  moreover from 4 5 it have "\<forall>x\<in>set (it # its). ce' \<le> snd (hd x)"
    by (auto split: if_splits intro: order.trans)
  moreover from 6 4 it idx
  have "(k' = k \<and> ce' = ce)
          \<or> (i \<le> k' \<and> k' - i < length (it # its) \<and> snd (hd ((it # its) ! (k' - i))) = ce'
              \<and> ce' < ce)"
    by (auto split: if_splits intro: order.strict_trans order.strict_trans1)
  ultimately show ?case
    by blast
qed

lemma intersect_scan_top:
  assumes ne: "\<forall>i<length its. its ! i \<noteq> []" and k: "k < length its"
  shows "\<exists>cb' ce' k'. intersect_scan its 0 cb LAST k = Inr (cb', ce', k')
      \<and> cb \<le> cb' \<and> (\<forall>i<length its. fst (hd (its ! i)) \<le> cb')
      \<and> (cb' = cb \<or> (\<exists>i<length its. cb' = fst (hd (its ! i))))
      \<and> (\<forall>i<length its. ce' \<le> snd (hd (its ! i)))
      \<and> k' < length its \<and> snd (hd (its ! k')) = ce'"
proof -
  from ne have "\<forall>it\<in>set its. it \<noteq> []"
    by (auto simp: in_set_conv_nth)
  from intersect_scan_spec [OF this, of 0 cb LAST k]
  obtain cb' ce' k' where s: "intersect_scan its 0 cb LAST k = Inr (cb', ce', k')"
    and 1: "cb \<le> cb'" and 2: "\<forall>it\<in>set its. fst (hd it) \<le> cb'"
    and 3: "cb' = cb \<or> (\<exists>it\<in>set its. cb' = fst (hd it))"
    and 5: "\<forall>it\<in>set its. ce' \<le> snd (hd it)"
    and 6: "(k' = k \<and> ce' = LAST) \<or> (k' < length its \<and> snd (hd (its ! k')) = ce' \<and> ce' < LAST)"
    by auto
  from 6 have "k' < length its \<and> snd (hd (its ! k')) = ce'"
  proof
    assume a: "k' = k \<and> ce' = LAST"
    with k 5 have "LAST \<le> snd (hd (its ! k))"
      by simp
    then have "snd (hd (its ! k)) = LAST"
      by (simp add: LAST_def word_order.extremum_unique)
    with a k show ?thesis by simp
  qed simp
  moreover from 3 have "cb' = cb \<or> (\<exists>i<length its. cb' = fst (hd (its ! i)))"
    by (auto simp: in_set_conv_nth)
  moreover from 2 have "\<forall>i<length its. fst (hd (its ! i)) \<le> cb'"
    by simp
  moreover from 5 have "\<forall>i<length its. ce' \<le> snd (hd (its ! i))"
    by simp
  ultimately show ?thesis
    using s 1 by blast
qed


section \<open>One round of intersect_ranges\<close>

lemma common_set_update_subset:
  assumes "k < length its" and "x \<in> common_set (its[k := tl (its ! k)])"
  shows "x \<in> common_set its"
proof -
  have "x \<in> ranges_set (its ! i)" if "i < length its" for i
  proof (cases "i = k")
    case True
    from assms that True have t: "x \<in> ranges_set (tl (its ! k))"
      by (auto simp: common_set_def)
    then have "its ! k \<noteq> []"
      by auto
    from ranges_set_hd_tl [OF this] t True show ?thesis
      by simp
  next
    case False
    with assms that show ?thesis
      by (auto simp: common_set_def)
  qed
  then show ?thesis
    by (simp add: common_set_def)
qed

lemma intersect_round_sets:
  assumes ne: "\<forall>i<length its. its ! i \<noteq> []" and a: "\<forall>i<length its. asc (its ! i)"
    and k: "k < length its" and cek: "snd (hd (its ! k)) = ce"
    and cemin: "\<forall>i<length its. ce \<le> snd (hd (its ! i))"
    and cbge: "cb0 \<le> cb" and cbmax: "\<forall>i<length its. fst (hd (its ! i)) \<le> cb"
    and cbin: "cb = cb0 \<or> (\<exists>i<length its. cb = fst (hd (its ! i)))"
    and I1: "\<forall>x\<in>common_set its. cb0 \<le> x"
  shows "common_set its = {cb..<ce} \<union> common_set (its[k := tl (its ! k)])"
    and "\<forall>x\<in>common_set (its[k := tl (its ! k)]). cb \<le> x"
proof -
  let ?its' = "its[k := tl (its ! k)]"
  have lower: "cb \<le> x" if x: "x \<in> common_set its" for x
  proof -
    from I1 x have 0: "cb0 \<le> x" by simp
    have "fst (hd (its ! i)) \<le> x" if "i < length its" for i
      using a x that by (auto simp: common_set_def intro: asc_hd_le)
    with cbin 0 show ?thesis
      by auto
  qed
  show "\<forall>x\<in>common_set ?its'. cb \<le> x"
    using lower common_set_update_subset [OF k] by blast
  show "common_set its = {cb..<ce} \<union> common_set ?its'"
  proof (intro set_eqI iffI)
    fix x assume x: "x \<in> common_set its"
    show "x \<in> {cb..<ce} \<union> common_set ?its'"
    proof (cases "x \<in> ranges_set (tl (its ! k))")
      case True
      have "x \<in> ranges_set (?its' ! i)" if "i < length ?its'" for i
        using that True x k by (cases "i = k") (auto simp: common_set_def)
      then show ?thesis
        by (simp add: common_set_def)
    next
      case False
      from x k have "x \<in> ranges_set (its ! k)"
        by (simp add: common_set_def)
      with False ne k have "x < snd (hd (its ! k))"
        by (simp add: ranges_set_hd_tl)
      with cek have "x < ce" by simp
      with lower [OF x] show ?thesis
        by simp
    qed
  next
    fix x assume "x \<in> {cb..<ce} \<union> common_set ?its'"
    then show "x \<in> common_set its"
    proof
      assume x: "x \<in> {cb..<ce}"
      have "x \<in> ranges_set (its ! i)" if i: "i < length its" for i
      proof -
        from cbmax i x have "fst (hd (its ! i)) \<le> x"
          by (auto intro: order.trans)
        moreover from cemin i x have "x < snd (hd (its ! i))"
          by (auto intro: order.strict_trans2)
        ultimately show ?thesis
          using ne i by (simp add: ranges_set_hd_tl)
      qed
      then show ?thesis
        by (simp add: common_set_def)
    next
      assume "x \<in> common_set ?its'"
      with k show ?thesis
        by (rule common_set_update_subset)
    qed
  qed
qed

lemma common_set_exhausted:
  "k < length its \<Longrightarrow> tl (its ! k) = [] \<Longrightarrow> common_set (its[k := tl (its ! k)]) = {}"
  by (auto simp: common_set_def)

section \<open>The pending range\<close>

lemma pend_list_simps [simp]: "pend_list None = []" "pend_list (Some p) = [p]"
  by (simp_all add: pend_list_def)

lemma flush_pending:
  assumes sim: "simulates R bnd ins" and R: "R res es" and inv: "out_inv bnd es (Some p)"
  shows "\<exists>res'. ins res p = Inr res' \<and> R res' (es @ [p]) \<and> out_inv bnd (es @ [p]) None"
proof -
  from inv have "fst p < snd p" "bnd (snd p)" "\<forall>e\<in>set es. snd e < fst p"
    by (auto simp: out_inv_def sorted_wrt_append)
  with sim R obtain res' where "ins res p = Inr res'" "R res' (es @ [p])"
    unfolding simulates_def by blast
  with inv show ?thesis
    by (auto simp: out_inv_def)
qed

lemma final_flush:
  assumes sim: "simulates R bnd ins" and R: "R res es" and inv: "out_inv bnd es pend"
  shows "\<exists>c' es'. (case pend of Some p \<Rightarrow> ins res p | None \<Rightarrow> Inr res) = Inr c' \<and> R c' es'
           \<and> out_inv bnd es' None \<and> es' = es @ pend_list pend"
proof (cases pend)
  case None
  with R inv show ?thesis by simp
next
  case (Some p)
  with flush_pending [OF sim R] inv show ?thesis
    by auto
qed

lemma intersect_emit_spec:
  assumes sim: "simulates R bnd ins" and R: "R res es" and inv: "out_inv bnd es pend"
    and start: "pend = None \<longrightarrow> es = []" and bce: "bnd ce"
    and ple: "\<forall>p. pend = Some p \<longrightarrow> snd p \<le> cb"
  shows "\<exists>pend' res' es'. intersect_emit ins res pend cb ce = Inr (pend', res') \<and> R res' es'
      \<and> out_inv bnd es' pend' \<and> (pend' = None \<longrightarrow> es' = [])
      \<and> ranges_set (es' @ pend_list pend') = ranges_set (es @ pend_list pend) \<union> {cb..<ce}
      \<and> (\<forall>p. pend' = Some p \<longrightarrow> (cb < ce \<and> snd p = ce) \<or> pend' = pend)"
proof (cases "cb < ce")
  case False
  then have "{cb..<ce} = {}" by simp
  with False R inv start show ?thesis
    by (auto simp: intersect_emit_def)
next
  case lt: True
  show ?thesis
  proof (cases pend)
    case None
    with start have es: "es = []" by simp
    from lt bce es have "out_inv bnd es (Some (cb, ce))"
      by (simp add: out_inv_def)
    with None lt R es show ?thesis
      by (auto simp: intersect_emit_def ranges_set_Cons intro!: exI [of _ "[]"])
  next
    case (Some p)
    from inv Some have p: "fst p < snd p" "\<forall>e\<in>set es. snd e < fst p"
      and sorted: "sorted_wrt (\<lambda>r s. snd r < fst s) es"
      and all: "\<forall>e\<in>set es. fst e < snd e \<and> bnd (snd e)"
      by (auto simp: out_inv_def sorted_wrt_append)
    show ?thesis
    proof (cases "snd p = cb")
      case True
      with p lt have "fst p < ce" by (auto intro: order.strict_trans)
      with p sorted all bce have "out_inv bnd es (Some (fst p, ce))"
        by (simp add: out_inv_def sorted_wrt_append)
      moreover from p True lt have "fst p \<le> cb" "cb \<le> ce"
        by (simp_all add: less_imp_le)
      then have "{fst p..<snd p} \<union> {cb..<ce} = {fst p..<ce}"
        unfolding True by (rule ivl_disj_un_two)
      ultimately show ?thesis
        using Some True lt R
        by (auto simp: intersect_emit_def ranges_set_append ranges_set_Cons Un_assoc)
    next
      case False
      with ple Some have pcb: "snd p < cb" by simp
      from flush_pending [OF sim R] inv Some obtain res' where
        f: "ins res p = Inr res'" "R res' (es @ [p])" "out_inv bnd (es @ [p]) None"
        by blast
      have "\<forall>e\<in>set (es @ [p]). snd e < cb"
      proof
        fix e assume "e \<in> set (es @ [p])"
        then have le: "snd e \<le> snd p"
          using p by (auto intro: less_imp_le order.strict_trans)
        from le pcb show "snd e < cb"
          by (rule order.strict_trans1)
      qed
      with f(3) lt bce have "out_inv bnd (es @ [p]) (Some (cb, ce))"
        by (simp add: out_inv_def sorted_wrt_append)
      with f Some False lt show ?thesis
        by (auto simp: intersect_emit_def ranges_set_append ranges_set_Cons)
    qed
  qed
qed

section \<open>The outer loop of intersect_ranges\<close>

lemma intersect_loop_correct:
  assumes sim: "simulates R bnd ins"
  shows "R res es \<Longrightarrow> out_inv bnd es pend \<Longrightarrow> pend = None \<longrightarrow> es = [] \<Longrightarrow>
    \<forall>i<length its. its ! i \<noteq> [] \<and> asc (its ! i) \<and> (\<forall>r\<in>set (its ! i). bnd (snd r)) \<Longrightarrow>
    k < length its \<Longrightarrow> \<forall>x\<in>common_set its. cb \<le> x \<Longrightarrow>
    \<forall>p. pend = Some p \<longrightarrow> snd p \<le> cb \<or> (\<exists>i<length its. snd p \<le> fst (hd (its ! i))) \<Longrightarrow>
    \<exists>c' es'. intersect_loop ins its cb LAST pend k res = Inr c' \<and> R c' es'
       \<and> out_inv bnd es' None
       \<and> ranges_set es' = ranges_set (es @ pend_list pend) \<union> common_set its"
proof (induction "sum_list (map length its)" arbitrary: its cb pend k res es rule: less_induct)
  case less
  note R = less.prems(1) and inv = less.prems(2) and start = less.prems(3)
    and its = less.prems(4) and k = less.prems(5) and I1 = less.prems(6) and I2 = less.prems(7)
  from its have ne: "\<forall>i<length its. its ! i \<noteq> []" and a: "\<forall>i<length its. asc (its ! i)"
    by simp_all
  from intersect_scan_top [OF ne k, of cb]
  obtain cb' ce' k' where scan: "intersect_scan its 0 cb LAST k = Inr (cb', ce', k')"
    and cbge: "cb \<le> cb'" and cbmax: "\<forall>i<length its. fst (hd (its ! i)) \<le> cb'"
    and cbin: "cb' = cb \<or> (\<exists>i<length its. cb' = fst (hd (its ! i)))"
    and cemin: "\<forall>i<length its. ce' \<le> snd (hd (its ! i))"
    and k': "k' < length its" and cek: "snd (hd (its ! k')) = ce'"
    by blast
  let ?its' = "its[k' := tl (its ! k')]"
  note sets = intersect_round_sets [OF ne a k' cek cemin cbge cbmax cbin I1]
  from its k' have "hd (its ! k') \<in> set (its ! k')" "\<forall>r\<in>set (its ! k'). bnd (snd r)"
    by simp_all
  with cek have bce: "bnd ce'"
    by auto
  have ple: "\<forall>p. pend = Some p \<longrightarrow> snd p \<le> cb'"
  proof (intro allI impI)
    fix p assume "pend = Some p"
    with I2 have "snd p \<le> cb \<or> (\<exists>i<length its. snd p \<le> fst (hd (its ! i)))"
      by simp
    with cbge cbmax show "snd p \<le> cb'"
      by (auto intro: order.trans)
  qed
  from intersect_emit_spec [OF sim R inv start bce ple]
  obtain pend' res' es' where emit: "intersect_emit ins res pend cb' ce' = Inr (pend', res')"
    and R': "R res' es'" and inv': "out_inv bnd es' pend'" and start': "pend' = None \<longrightarrow> es' = []"
    and set': "ranges_set (es' @ pend_list pend') = ranges_set (es @ pend_list pend) \<union> {cb'..<ce'}"
    and pend': "\<forall>p. pend' = Some p \<longrightarrow> (cb' < ce' \<and> snd p = ce') \<or> pend' = pend"
    by blast
  have unf: "intersect_loop ins its cb LAST pend k res =
      (if tl (its ! k') = [] then (case pend' of Some p \<Rightarrow> ins res' p | None \<Rightarrow> Inr res')
       else intersect_loop ins ?its' cb' LAST pend' k' res')"
    by (subst intersect_loop.simps) (simp add: scan emit k' cong: option.case_cong)
  show ?case
  proof (cases "tl (its ! k') = []")
    case True
    from final_flush [OF sim R' inv'] obtain c' es'' where
      f: "(case pend' of Some p \<Rightarrow> ins res' p | None \<Rightarrow> Inr res') = Inr c'" "R c' es''"
         "out_inv bnd es'' None" "es'' = es' @ pend_list pend'"
      by blast
    from common_set_exhausted [OF k' True] sets(1) have "common_set its = {cb'..<ce'}"
      by simp
    with f set' unf True show ?thesis
      by auto
  next
    case False
    from ne k' have m: "sum_list (map length ?its') < sum_list (map length its)"
      by (simp add: sum_list_length_tl_update)
    have its': "\<forall>i<length ?its'. ?its' ! i \<noteq> [] \<and> asc (?its' ! i) \<and> (\<forall>r\<in>set (?its' ! i). bnd (snd r))"
    proof (intro allI impI)
      fix i assume i: "i < length ?its'"
      show "?its' ! i \<noteq> [] \<and> asc (?its' ! i) \<and> (\<forall>r\<in>set (?its' ! i). bnd (snd r))"
      proof (cases "i = k'")
        case True
        from its k' have "asc (tl (its ! k'))" "\<forall>r\<in>set (tl (its ! k')). bnd (snd r)"
          by (auto intro: asc_tl dest: list.set_sel(2) [rotated])
        with True False k' show ?thesis
          by simp
      next
        case False
        with i its show ?thesis
          by simp
      qed
    qed
    have I2': "\<forall>p. pend' = Some p \<longrightarrow> snd p \<le> cb' \<or> (\<exists>i<length ?its'. snd p \<le> fst (hd (?its' ! i)))"
    proof (intro allI impI)
      fix p assume p: "pend' = Some p"
      with pend' have "(cb' < ce' \<and> snd p = ce') \<or> pend' = pend"
        by simp
      then show "snd p \<le> cb' \<or> (\<exists>i<length ?its'. snd p \<le> fst (hd (?its' ! i)))"
      proof
        assume c: "cb' < ce' \<and> snd p = ce'"
        from a k' have "asc (its ! k')" by simp
        from asc_hd_tl [OF this False] cek c have "snd p \<le> fst (hd (tl (its ! k')))"
          by simp
        with k' show ?thesis
          by (auto intro!: exI [of _ k'])
      next
        assume "pend' = pend"
        with p ple show ?thesis by simp
      qed
    qed
    from k' have k'': "k' < length ?its'" by simp
    from less.hyps [OF m R' inv' start' its' k'' sets(2) I2']
    obtain c' es'' where "intersect_loop ins ?its' cb' LAST pend' k' res' = Inr c'" "R c' es''"
      "out_inv bnd es'' None"
      "ranges_set es'' = ranges_set (es' @ pend_list pend') \<union> common_set ?its'"
      by blast
    with unf False set' sets(1) show ?thesis
      by auto
  qed
qed

section \<open>The inner loop of unite_ranges\<close>

lemma set_tl_sub: "set (tl xs) \<subseteq> set xs"
  by (cases xs) auto

lemma unite_scan_min:
  "unite_scan its i cb ce k = (cb', ce', k') \<Longrightarrow>
     cb' \<le> cb \<and> (\<forall>it\<in>set its. it \<noteq> [] \<longrightarrow> cb' \<le> fst (hd it))"
proof (induction its i cb ce k rule: unite_scan.induct)
  case (1 i cb ce k)
  then show ?case by simp
next
  case (2 it its i cb ce k)
  show ?case
  proof (cases it)
    case Nil
    with 2 show ?thesis by simp
  next
    case (Cons r rest)
    show ?thesis
    proof (cases "fst r < cb")
      case True
      with 2 Cons have "cb' \<le> fst r \<and> (\<forall>it\<in>set its. it \<noteq> [] \<longrightarrow> cb' \<le> fst (hd it))"
        by simp
      with True Cons show ?thesis
        by (auto intro: order.trans less_imp_le)
    next
      case False
      with 2 Cons have "cb' \<le> cb \<and> (\<forall>it\<in>set its. it \<noteq> [] \<longrightarrow> cb' \<le> fst (hd it))"
        by simp
      with False Cons show ?thesis
        by (auto intro: order.trans)
    qed
  qed
qed

lemma unite_scan_top:
  assumes a: "\<forall>i<length its. asc (its ! i)"
  shows "((\<forall>i<length its. its ! i = []) \<and> unite_scan its 0 LAST LAST 0 = (LAST, LAST, 0))
     \<or> (\<exists>cb' ce' k'. unite_scan its 0 LAST LAST 0 = (cb', ce', k') \<and> k' < length its
           \<and> its ! k' \<noteq> [] \<and> hd (its ! k') = (cb', ce')
           \<and> (\<forall>i<length its. its ! i \<noteq> [] \<longrightarrow> cb' \<le> fst (hd (its ! i))))"
proof -
  obtain cb' ce' k' where s: "unite_scan its 0 LAST LAST 0 = (cb', ce', k')"
    by (cases "unite_scan its 0 LAST LAST 0") auto
  from unite_scan_min [OF s] have mn: "\<forall>i<length its. its ! i \<noteq> [] \<longrightarrow> cb' \<le> fst (hd (its ! i))"
    by simp
  from unite_scan_result [OF s]
  have r: "(cb', ce', k') = (LAST, LAST, 0)
     \<or> (k' < length its \<and> its ! k' \<noteq> [] \<and> hd (its ! k') = (cb', ce') \<and> cb' < LAST)"
    by simp
  show ?thesis
  proof (cases "\<forall>i<length its. its ! i = []")
    case True
    with r s show ?thesis by auto
  next
    case False
    then obtain i where i: "i < length its" "its ! i \<noteq> []"
      by blast
    with a have "fst (hd (its ! i)) < snd (hd (its ! i))"
      by (simp add: asc_hd_pos)
    also have "\<dots> \<le> LAST"
      by (simp add: LAST_def)
    finally have "fst (hd (its ! i)) < LAST" .
    with mn i have "cb' < LAST"
      by (auto intro: order.strict_trans1)
    with r s mn show ?thesis
      by auto
  qed
qed

lemma union_set_all_empty: "\<forall>i<length its. its ! i = [] \<Longrightarrow> union_set its = {}"
  by (auto simp: union_set_def)

lemma union_round_sets:
  assumes k: "k < length its" and ne: "its ! k \<noteq> []" and hd: "hd (its ! k) = (cb, ce)"
  shows "union_set its = {cb..<ce} \<union> union_set (its[k := tl (its ! k)])"
proof (intro set_eqI iffI)
  fix x assume "x \<in> union_set its"
  then obtain i where i: "i < length its" "x \<in> ranges_set (its ! i)"
    by (auto simp: union_set_def)
  show "x \<in> {cb..<ce} \<union> union_set (its[k := tl (its ! k)])"
  proof (cases "i = k")
    case True
    with i ne hd have "x \<in> {cb..<ce} \<or> x \<in> ranges_set (tl (its ! k))"
      by (simp add: ranges_set_hd_tl)
    with k show ?thesis
      by (auto simp: union_set_def intro!: exI [of _ k])
  next
    case False
    with i show ?thesis
      by (auto simp: union_set_def intro!: exI [of _ i])
  qed
next
  fix x assume "x \<in> {cb..<ce} \<union> union_set (its[k := tl (its ! k)])"
  then show "x \<in> union_set its"
  proof
    assume "x \<in> {cb..<ce}"
    with ne hd have "x \<in> ranges_set (its ! k)"
      by (simp add: ranges_set_hd_tl)
    with k show ?thesis
      by (auto simp: union_set_def)
  next
    assume "x \<in> union_set (its[k := tl (its ! k)])"
    then obtain i where i: "i < length its" "x \<in> ranges_set (its[k := tl (its ! k)] ! i)"
      by (auto simp: union_set_def)
    show ?thesis
    proof (cases "i = k")
      case True
      with i have "x \<in> ranges_set (tl (its ! k))"
        by simp
      with ne have "x \<in> ranges_set (its ! k)"
        by (simp add: ranges_set_hd_tl)
      with k show ?thesis
        by (auto simp: union_set_def)
    next
      case False
      with i show ?thesis
        by (auto simp: union_set_def)
    qed
  qed
qed

lemma unite_emit_spec:
  assumes sim: "simulates R bnd ins" and R: "R res es" and inv: "out_inv bnd es pend"
    and start: "pend = None \<longrightarrow> es = []" and lt: "cb < ce" and bce: "bnd ce"
    and ple: "\<forall>p. pend = Some p \<longrightarrow> fst p \<le> cb"
  shows "\<exists>pend' res' es'. unite_emit ins res pend cb ce = Inr (pend', res') \<and> R res' es'
      \<and> out_inv bnd es' pend'
      \<and> ranges_set (es' @ pend_list pend') = ranges_set (es @ pend_list pend) \<union> {cb..<ce}
      \<and> (\<exists>p. pend' = Some p \<and> fst p \<le> cb)"
proof (cases pend)
  case None
  with start have es: "es = []" by simp
  from lt bce es have "out_inv bnd es (Some (cb, ce))"
    by (simp add: out_inv_def)
  with None lt R es show ?thesis
    by (auto simp: unite_emit_def ranges_set_Cons intro!: exI [of _ "[]"])
next
  case (Some p)
  from inv Some have p: "fst p < snd p" "\<forall>e\<in>set es. snd e < fst p"
    and sorted: "sorted_wrt (\<lambda>r s. snd r < fst s) es"
    and all: "\<forall>e\<in>set es. fst e < snd e \<and> bnd (snd e)"
    by (auto simp: out_inv_def sorted_wrt_append)
  from ple Some have pcb: "fst p \<le> cb" by simp
  show ?thesis
  proof (cases "cb \<le> snd p")
    case overlap: True
    show ?thesis
    proof (cases "snd p < ce")
      case True
      from pcb lt have "fst p < ce"
        by (rule order.strict_trans1)
      with p sorted all bce have "out_inv bnd es (Some (fst p, ce))"
        by (simp add: out_inv_def sorted_wrt_append)
      moreover have "{fst p..<snd p} \<union> {cb..<ce} = {fst p..<ce}"
      proof (intro set_eqI iffI)
        fix x assume "x \<in> {fst p..<snd p} \<union> {cb..<ce}"
        with True pcb show "x \<in> {fst p..<ce}"
          by (auto intro: order.strict_trans order.trans)
      next
        fix x assume x: "x \<in> {fst p..<ce}"
        show "x \<in> {fst p..<snd p} \<union> {cb..<ce}"
        proof (cases "x < snd p")
          case True
          with x show ?thesis by simp
        next
          case False
          then have "snd p \<le> x" by simp
          with overlap have "cb \<le> x" by (rule order.trans)
          with x show ?thesis by simp
        qed
      qed
      ultimately show ?thesis
        using Some overlap True lt R pcb
        by (auto simp: unite_emit_def ranges_set_append ranges_set_Cons Un_assoc)
    next
      case False
      then have "ce \<le> snd p" by simp
      have "{cb..<ce} \<subseteq> {fst p..<snd p}"
      proof
        fix x assume "x \<in> {cb..<ce}"
        with pcb \<open>ce \<le> snd p\<close> show "x \<in> {fst p..<snd p}"
          by (auto intro: order.trans order.strict_trans2)
      qed
      then have "{fst p..<snd p} \<union> {cb..<ce} = {fst p..<snd p}"
        by blast
      then have "ranges_set (es @ pend_list (Some p)) = ranges_set (es @ pend_list pend) \<union> {cb..<ce}"
        using Some by (simp add: ranges_set_append ranges_set_Cons Un_assoc)
      moreover from Some overlap False lt
      have "unite_emit ins res pend cb ce = Inr (Some p, res)"
        by (simp add: unite_emit_def)
      ultimately show ?thesis
        using R inv Some pcb by blast
    qed
  next
    case False
    then have pcb': "snd p < cb" by simp
    from flush_pending [OF sim R] inv Some obtain res' where
      f: "ins res p = Inr res'" "R res' (es @ [p])" "out_inv bnd (es @ [p]) None"
      by blast
    have "\<forall>e\<in>set (es @ [p]). snd e < cb"
    proof
      fix e assume "e \<in> set (es @ [p])"
      then have le: "snd e \<le> snd p"
        using p by (auto intro: less_imp_le order.strict_trans)
      from le pcb' show "snd e < cb"
        by (rule order.strict_trans1)
    qed
    with f(3) lt bce have "out_inv bnd (es @ [p]) (Some (cb, ce))"
      by (simp add: out_inv_def sorted_wrt_append)
    with f Some False lt show ?thesis
      by (auto simp: unite_emit_def ranges_set_append ranges_set_Cons)
  qed
qed

section \<open>The outer loop of unite_ranges\<close>

lemma unite_loop_correct:
  assumes sim: "simulates R bnd ins"
  shows "R res es \<Longrightarrow> out_inv bnd es pend \<Longrightarrow> pend = None \<longrightarrow> es = [] \<Longrightarrow>
    \<forall>i<length its. asc (its ! i) \<and> (\<forall>r\<in>set (its ! i). bnd (snd r) \<and> snd r \<noteq> LAST) \<Longrightarrow>
    \<forall>p. pend = Some p \<longrightarrow> (\<forall>i<length its. \<forall>r\<in>set (its ! i). fst p \<le> fst r) \<Longrightarrow>
    \<exists>c' es'. unite_loop ins its pend res = Inr c' \<and> R c' es'
       \<and> out_inv bnd es' None
       \<and> ranges_set es' = ranges_set (es @ pend_list pend) \<union> union_set its"
proof (induction "sum_list (map length its)" arbitrary: its pend res es rule: less_induct)
  case less
  note R = less.prems(1) and inv = less.prems(2) and start = less.prems(3)
    and its = less.prems(4) and I2 = less.prems(5)
  from its have a: "\<forall>i<length its. asc (its ! i)"
    by simp
  from unite_scan_top [OF a] show ?case
  proof
    assume e: "(\<forall>i<length its. its ! i = []) \<and> unite_scan its 0 LAST LAST 0 = (LAST, LAST, 0)"
    then have unf: "unite_loop ins its pend res
        = (case pend of Some p \<Rightarrow> ins res p | None \<Rightarrow> Inr res)"
      by (subst unite_loop.simps) simp
    from final_flush [OF sim R inv] e unf show ?thesis
      by (auto simp: union_set_all_empty)
  next
    assume "\<exists>cb' ce' k'. unite_scan its 0 LAST LAST 0 = (cb', ce', k') \<and> k' < length its
           \<and> its ! k' \<noteq> [] \<and> hd (its ! k') = (cb', ce')
           \<and> (\<forall>i<length its. its ! i \<noteq> [] \<longrightarrow> cb' \<le> fst (hd (its ! i)))"
    then obtain cb' ce' k' where scan: "unite_scan its 0 LAST LAST 0 = (cb', ce', k')"
      and k': "k' < length its" and ne: "its ! k' \<noteq> []" and hd: "hd (its ! k') = (cb', ce')"
      and mn: "\<forall>i<length its. its ! i \<noteq> [] \<longrightarrow> cb' \<le> fst (hd (its ! i))"
      by blast
    let ?its' = "its[k' := tl (its ! k')]"
    from ne have hdin: "hd (its ! k') \<in> set (its ! k')"
      by simp
    with its k' hd have bce: "bnd ce'" and nl: "ce' \<noteq> LAST"
      by (auto dest!: spec [of _ k'])
    from a k' have "asc (its ! k')"
      by simp
    from asc_hd_pos [OF this ne] hd have lt: "cb' < ce'"
      by simp
    have ple: "\<forall>p. pend = Some p \<longrightarrow> fst p \<le> cb'"
    proof (intro allI impI)
      fix p assume "pend = Some p"
      with I2 k' hdin have "fst p \<le> fst (hd (its ! k'))"
        by blast
      with hd show "fst p \<le> cb'"
        by simp
    qed
    from unite_emit_spec [OF sim R inv start lt bce ple]
    obtain pend' res' es' p' where emit: "unite_emit ins res pend cb' ce' = Inr (pend', res')"
      and R': "R res' es'" and inv': "out_inv bnd es' pend'"
      and set': "ranges_set (es' @ pend_list pend') = ranges_set (es @ pend_list pend) \<union> {cb'..<ce'}"
      and pend': "pend' = Some p'" "fst p' \<le> cb'"
      by blast
    have unf: "unite_loop ins its pend res = unite_loop ins ?its' pend' res'"
      by (subst unite_loop.simps) (simp add: scan nl emit Let_def)
    from k' ne have m: "sum_list (map length ?its') < sum_list (map length its)"
      by (simp add: sum_list_length_tl_update)
    have sub: "set (?its' ! i) \<subseteq> set (its ! i)" if "i < length its" for i
      using that set_tl_sub [of "its ! k'"] by (cases "i = k'") auto
    have its': "\<forall>i<length ?its'. asc (?its' ! i) \<and> (\<forall>r\<in>set (?its' ! i). bnd (snd r) \<and> snd r \<noteq> LAST)"
    proof (intro allI impI conjI)
      fix i assume i: "i < length ?its'"
      with a show "asc (?its' ! i)"
        by (cases "i = k'") (auto intro: asc_tl)
      from i sub [of i] its show "\<forall>r\<in>set (?its' ! i). bnd (snd r) \<and> snd r \<noteq> LAST"
        by auto
    qed
    have I2': "\<forall>p. pend' = Some p \<longrightarrow> (\<forall>i<length ?its'. \<forall>r\<in>set (?its' ! i). fst p \<le> fst r)"
    proof (intro allI impI ballI)
      fix p i r assume p: "pend' = Some p" and i: "i < length ?its'" and r: "r \<in> set (?its' ! i)"
      from i r sub [of i] have rin: "r \<in> set (its ! i)" and i': "i < length its"
        by auto
      then have nei: "its ! i \<noteq> []"
        by auto
      from a i' rin have "fst (hd (its ! i)) \<le> fst r"
        by (auto intro: asc_begin_le)
      with mn i' nei have "cb' \<le> fst r"
        by (auto intro: order.trans)
      with pend' p show "fst p \<le> fst r"
        by (auto intro: order.trans)
    qed
    from pend' have start': "pend' = None \<longrightarrow> es' = []"
      by simp
    from less.hyps [OF m R' inv' start' its' I2']
    obtain c' es'' where "unite_loop ins ?its' pend' res' = Inr c'" "R c' es''"
      "out_inv bnd es'' None"
      "ranges_set es'' = ranges_set (es' @ pend_list pend') \<union> union_set ?its'"
      by blast
    with unf set' union_round_sets [OF k' ne hd] show ?thesis
      by auto
  qed
qed

section \<open>The merger on any container\<close>

lemma common_set_map:
  "common_set (map v cs) = (\<Inter>c\<in>set cs. ranges_set (v c))"
proof (intro set_eqI iffI)
  fix x assume x: "x \<in> common_set (map v cs)"
  have "x \<in> ranges_set (v c)" if "c \<in> set cs" for c
  proof -
    from that obtain i where "i < length cs" "cs ! i = c"
      by (auto simp: in_set_conv_nth)
    with x show ?thesis
      by (auto simp: common_set_def)
  qed
  then show "x \<in> (\<Inter>c\<in>set cs. ranges_set (v c))"
    by simp
next
  fix x assume "x \<in> (\<Inter>c\<in>set cs. ranges_set (v c))"
  then show "x \<in> common_set (map v cs)"
    by (simp add: common_set_def)
qed

lemma union_set_map:
  "union_set (map v cs) = (\<Union>c\<in>set cs. ranges_set (v c))"
proof (intro set_eqI iffI)
  fix x assume "x \<in> union_set (map v cs)"
  then obtain i where "i < length cs" "x \<in> ranges_set (v (cs ! i))"
    by (auto simp: union_set_def)
  then show "x \<in> (\<Union>c\<in>set cs. ranges_set (v c))"
    using nth_mem by blast
next
  fix x assume "x \<in> (\<Union>c\<in>set cs. ranges_set (v c))"
  then obtain c where "c \<in> set cs" "x \<in> ranges_set (v c)"
    by blast
  then obtain i where "i < length cs" "x \<in> ranges_set (v (cs ! i))"
    by (auto simp: in_set_conv_nth)
  then show "x \<in> union_set (map v cs)"
    by (auto simp: union_set_def)
qed

lemma begin_iters_views:
  assumes "\<forall>c\<in>set cs. view c = Inr (v c)"
  shows "begin_iters view cs = Inr (if \<exists>c\<in>set cs. v c = [] then None else Some (map v cs))"
  using assms by (induction cs) simp_all

lemma all_iters_views:
  assumes "\<forall>c\<in>set cs. view c = Inr (v c)"
  shows "all_iters view cs = Inr (map v cs)"
  using assms by (induction cs) simp_all

lemma out_inv_Nil: "out_inv bnd [] None"
  by (simp add: out_inv_def)

lemma intersect_ranges_many:
  fixes v :: "'c \<Rightarrow> ('a::len word \<times> 'a word) list"
  assumes sim: "simulates R bnd ins" and R0: "R empty_cont []"
    and views: "\<forall>c\<in>set cs. view c = Inr (v c) \<and> asc (v c) \<and> (\<forall>r\<in>set (v c). bnd (snd r))"
    and len: "2 \<le> length cs"
  shows "\<exists>c' es'. intersect_ranges empty_cont ins view cs = Inr c' \<and> R c' es'
           \<and> out_inv bnd es' None \<and> ranges_set es' = (\<Inter>c\<in>set cs. ranges_set (v c))"
proof -
  from views have bi: "begin_iters view cs
      = Inr (if \<exists>c\<in>set cs. v c = [] then None else Some (map v cs))"
    by (intro begin_iters_views) simp
  from len have ne1: "cs \<noteq> []"
    by (cases cs) simp_all
  from len have ne2: "length cs \<noteq> 1"
    by simp
  note ne = ne1 ne2
  show ?thesis
  proof (cases "\<exists>c\<in>set cs. v c = []")
    case True
    then have "(\<Inter>c\<in>set cs. ranges_set (v c)) = {}"
      by auto
    moreover from True bi have "ebind (begin_iters view cs)
        (\<lambda>iters. case iters of None \<Rightarrow> Inr empty_cont
           | Some its \<Rightarrow> intersect_loop ins its 0 LAST None 0 empty_cont) = Inr empty_cont"
      by (simp only: if_True ebind_Inr option.case)
    with ne have "intersect_ranges empty_cont ins view cs = Inr empty_cont"
      by (simp only: intersect_ranges_def if_False)
    moreover have "ranges_set ([] :: ('a word \<times> 'a word) list) = {}"
      by simp
    ultimately show ?thesis
      using R0 out_inv_Nil [of bnd] by metis
  next
    case False
    let ?its = "map v cs"
    have its: "\<forall>i<length ?its. ?its ! i \<noteq> [] \<and> asc (?its ! i)
        \<and> (\<forall>r\<in>set (?its ! i). bnd (snd r))"
    proof (intro allI impI)
      fix i assume "i < length ?its"
      then have "cs ! i \<in> set cs" "?its ! i = v (cs ! i)"
        by simp_all
      with False views show "?its ! i \<noteq> [] \<and> asc (?its ! i) \<and> (\<forall>r\<in>set (?its ! i). bnd (snd r))"
        by simp
    qed
    from ne1 have k: "0 < length ?its"
      by simp
    have I1: "\<forall>x\<in>common_set ?its. 0 \<le> x"
      by simp
    have start: "(None :: ('a word \<times> 'a word) option) = None
        \<longrightarrow> ([] :: ('a word \<times> 'a word) list) = []"
      by simp
    have I2: "\<forall>p. None = Some p \<longrightarrow>
        snd p \<le> (0 :: 'a word) \<or> (\<exists>i<length ?its. snd p \<le> fst (hd (?its ! i)))"
      by simp
    from intersect_loop_correct [OF sim R0 out_inv_Nil start its k I1 I2]
    obtain c' es' where l: "intersect_loop ins ?its 0 LAST None 0 empty_cont = Inr c'"
      and r: "R c' es'" "out_inv bnd es' None"
      and st: "ranges_set es' = ranges_set ([] @ pend_list None) \<union> common_set ?its"
      by blast
    from False bi have "ebind (begin_iters view cs)
        (\<lambda>iters. case iters of None \<Rightarrow> Inr empty_cont
           | Some its \<Rightarrow> intersect_loop ins its 0 LAST None 0 empty_cont) = Inr c'"
      by (simp only: if_False ebind_Inr option.case l)
    with ne have "intersect_ranges empty_cont ins view cs = Inr c'"
      by (simp only: intersect_ranges_def if_False)
    moreover from st have "ranges_set es' = (\<Inter>c\<in>set cs. ranges_set (v c))"
      by (simp add: common_set_map)
    ultimately show ?thesis
      using r by blast
  qed
qed

lemma unite_ranges_many:
  fixes v :: "'c \<Rightarrow> ('a::len word \<times> 'a word) list"
  assumes sim: "simulates R bnd ins" and R0: "R empty_cont []"
    and views: "\<forall>c\<in>set cs. view c = Inr (v c) \<and> asc (v c)
                  \<and> (\<forall>r\<in>set (v c). bnd (snd r) \<and> snd r \<noteq> LAST)"
    and len: "2 \<le> length cs"
  shows "\<exists>c' es'. unite_ranges empty_cont ins view cs = Inr c' \<and> R c' es'
           \<and> out_inv bnd es' None \<and> ranges_set es' = (\<Union>c\<in>set cs. ranges_set (v c))"
proof -
  from views have ai: "all_iters view cs = Inr (map v cs)"
    by (intro all_iters_views) simp
  from len have ne1: "cs \<noteq> []"
    by (cases cs) simp_all
  from len have ne2: "length cs \<noteq> 1"
    by simp
  note ne = ne1 ne2
  let ?its = "map v cs"
  have its: "\<forall>i<length ?its. asc (?its ! i)
      \<and> (\<forall>r\<in>set (?its ! i). bnd (snd r) \<and> snd r \<noteq> LAST)"
  proof (intro allI impI)
    fix i assume "i < length ?its"
    then have "cs ! i \<in> set cs" "?its ! i = v (cs ! i)"
      by simp_all
    with views show "asc (?its ! i) \<and> (\<forall>r\<in>set (?its ! i). bnd (snd r) \<and> snd r \<noteq> LAST)"
      by simp
  qed
  have start: "(None :: ('a word \<times> 'a word) option) = None
      \<longrightarrow> ([] :: ('a word \<times> 'a word) list) = []"
    by simp
  have I2: "\<forall>p :: 'a word \<times> 'a word. None = Some p \<longrightarrow>
      (\<forall>i<length ?its. \<forall>r\<in>set (?its ! i). fst p \<le> fst r)"
    by simp
  from unite_loop_correct [OF sim R0 out_inv_Nil start its I2]
  obtain c' es' where l: "unite_loop ins ?its None empty_cont = Inr c'"
    and r: "R c' es'" "out_inv bnd es' None"
    and st: "ranges_set es' = ranges_set ([] @ pend_list None) \<union> union_set ?its"
    by blast
  from ai have "ebind (all_iters view cs) (\<lambda>iters. unite_loop ins iters None empty_cont) = Inr c'"
    by (simp only: ebind_Inr l)
  with ne have "unite_ranges empty_cont ins view cs = Inr c'"
    by (simp only: unite_ranges_def if_False)
  moreover from st have "ranges_set es' = (\<Union>c\<in>set cs. ranges_set (v c))"
    by (simp add: union_set_map)
  ultimately show ?thesis
    using r by blast
qed

section \<open>Plain vectors as containers of the merger\<close>

lemma word_less_succ: "(i :: 'a::len word) < e \<Longrightarrow> i < i + 1"
  by (simp add: word_less_nat_alt word_less_Suc_unat)

lemma word_succ_le_iff:
  fixes i e x :: "'a::len word"
  assumes "i < e"
  shows "i + 1 \<le> x \<longleftrightarrow> i < x"
  using word_less_Suc_unat [OF assms] by (auto simp: word_le_nat_alt word_less_nat_alt)

lemma set_push_values: "set (push_values i e out) = set out \<union> {i..<e}"
proof (induction i e out rule: push_values.induct)
  case (1 i e out)
  show ?case
  proof (cases "i < e")
    case True
    have mem: "x \<in> {i} \<union> {i + 1..<e} \<longleftrightarrow> x \<in> {i..<e}" for x
    proof -
      have "x = i \<or> i < x \<longleftrightarrow> i \<le> x"
        by (auto simp: le_less)
      with True show ?thesis
        by (simp only: Un_iff singleton_iff atLeastLessThan_iff word_succ_le_iff [OF True]) blast
    qed
    then have eq: "{i} \<union> {i + 1..<e} = {i..<e}"
      by (rule set_eqI)
    have "set (push_values i e out) = set (push_values (i + 1) e (out @ [i]))"
      using True by (subst push_values.simps) simp
    also from 1 True have "\<dots> = set (out @ [i]) \<union> {i + 1..<e}"
      by simp
    also have "\<dots> = set out \<union> ({i} \<union> {i + 1..<e})"
      by (simp add: Un_assoc)
    finally show ?thesis
      by (simp only: eq)
  next
    case False
    then show ?thesis
      by (subst push_values.simps) simp
  qed
qed

lemma sorted_push_values:
  "sorted_wrt (<) out \<Longrightarrow> \<forall>y\<in>set out. y < i \<Longrightarrow> sorted_wrt (<) (push_values i e out)"
proof (induction i e out rule: push_values.induct)
  case (1 i e out)
  show ?case
  proof (cases "i < e")
    case True
    from True have s: "i < i + 1"
      by (rule word_less_succ)
    from 1(2,3) have "sorted_wrt (<) (out @ [i])"
      by (simp add: sorted_wrt_append)
    moreover from 1(3) s have "\<forall>y\<in>set (out @ [i]). y < i + 1"
      by (auto intro: order.strict_trans)
    ultimately have "sorted_wrt (<) (push_values (i + 1) e (out @ [i]))"
      using 1(1) True by simp
    with True show ?thesis
      by (subst push_values.simps) simp
  next
    case False
    with 1(2) show ?thesis
      by (subst push_values.simps) simp
  qed
qed

lemma vec_holds_snoc:
  "vec_holds c es \<Longrightarrow> vec_holds (push_values (fst r) (snd r) c) (es @ [r])"
  by (simp add: vec_holds_def)

lemma vec_simulates: "simulates vec_holds bnd insert_back_vec"
  by (simp add: simulates_def insert_back_vec_def vec_holds_snoc)

lemma vec_holds_set: "vec_holds c es \<Longrightarrow> set c = ranges_set es"
proof (induction es arbitrary: c rule: rev_induct)
  case Nil
  then show ?case by (simp add: vec_holds_def)
next
  case (snoc r es)
  let ?c0 = "foldl (\<lambda>out r. push_values (fst r) (snd r) out) [] es"
  have "vec_holds ?c0 es"
    by (simp add: vec_holds_def)
  with snoc.IH have "set ?c0 = ranges_set es"
    by simp
  with snoc.prems show ?case
    by (simp add: vec_holds_def set_push_values ranges_set_append ranges_set_Cons)
qed

lemma vec_holds_sorted:
  "vec_holds c es \<Longrightarrow> out_inv bnd es None \<Longrightarrow> sorted_wrt (<) c"
proof (induction es arbitrary: c rule: rev_induct)
  case Nil
  then show ?case by (simp add: vec_holds_def)
next
  case (snoc r es)
  let ?c0 = "foldl (\<lambda>out r. push_values (fst r) (snd r) out) [] es"
  have h: "vec_holds ?c0 es"
    by (simp add: vec_holds_def)
  from snoc.prems(2) have inv: "out_inv bnd es None" and gap: "\<forall>e\<in>set es. snd e < fst r"
    by (auto simp: out_inv_def sorted_wrt_append)
  from snoc.IH [OF h inv] have s: "sorted_wrt (<) ?c0" .
  have "\<forall>y\<in>set ?c0. y < fst r"
  proof
    fix y assume "y \<in> set ?c0"
    with vec_holds_set [OF h] obtain e where e: "e \<in> set es" "y < snd e"
      by (auto simp: ranges_set_def)
    with gap have "snd e < fst r" by simp
    with e(2) show "y < fst r"
      by (rule order.strict_trans)
  qed
  with s have "sorted_wrt (<) (push_values (fst r) (snd r) ?c0)"
    by (rule sorted_push_values)
  with snoc.prems(1) show ?case
    by (simp add: vec_holds_def)
qed

lemma vec_view_asc:
  assumes "sorted_wrt (<) vs" and "LAST \<notin> set vs"
  shows "asc (map (\<lambda>v. (v, v + 1)) vs)"
  using assms
proof (induction vs)
  case Nil
  then show ?case by (simp add: asc_def)
next
  case (Cons v vs)
  from Cons.prems have "v \<noteq> LAST" by auto
  then have "v < LAST"
    by (simp add: LAST_def word_order.not_eq_extremum)
  then have v: "v < v + 1"
    by (rule word_less_succ)
  have "v + 1 \<le> w" if "w \<in> set vs" for w
    using that Cons.prems(1) by (auto intro: inc_le)
  with Cons v show ?case
    by (auto simp: asc_def)
qed

lemma vec_view_set:
  assumes "LAST \<notin> set vs"
  shows "ranges_set (map (\<lambda>v. (v, v + 1)) vs) = set vs"
proof -
  have "{v..<v + 1} = {v}" if "v \<in> set vs" for v
  proof -
    from that assms have "v \<noteq> LAST" by auto
    then have "v < LAST"
      by (simp add: LAST_def word_order.not_eq_extremum)
    then have "v < v + 1"
      by (rule word_less_succ)
    then show ?thesis
      by (rule word_singleton_interval)
  qed
  then show ?thesis
    by (auto simp: ranges_set_def)
qed

(*LEMMAS-END*)

(*CLAIMS-END*)

section \<open>Iterator misuse\<close>

text \<open>
  C9 (as amended). For every iterator whose base position is not before its end position,
  dereferencing (\<open>operator*\<close>) and member access (\<open>operator->\<close>) each fail their assertion,
  while the prefix and the postfix increment contain no assertion and return normally,
  whatever the container: the prefix increment returns the moved iterator and the postfix
  increment the iterator as it was.
\<close>

theorem at_or_past_end_deref_asserts_increment_returns:
  assumes "end_iter it \<le> base_iter it"
  shows "deref it = Inl AssertionFailed \<and> arrow it = Inl AssertionFailed
       \<and> (\<exists>it'. pre_inc vect it = Inr it' \<and> post_inc vect it = Inr (it, it'))"
proof -
  from assms have "deref it = Inl AssertionFailed" "arrow it = Inl AssertionFailed"
    by (simp_all add: deref_def arrow_def)
  moreover from assms
  have "advance vect it = Inr (it\<lparr>base_iter := base_iter it + 1, current_value := (0, 0)\<rparr>)"
    by (simp add: advance_def calculate_value_def ebind_def)
  then have "\<exists>it'. pre_inc vect it = Inr it' \<and> post_inc vect it = Inr (it, it')"
    by (simp add: pre_inc_def post_inc_def ebind_def)
  ultimately show ?thesis
    by blast
qed

theorem at_or_past_end_deref_asserts_increment_returns_witness:
  "end_iter \<lparr>base_iter = 5, end_iter = 3, current_value = (0 :: 8 word, 0 :: 8 word)\<rparr>
     \<le> base_iter \<lparr>base_iter = 5, end_iter = 3, current_value = (0 :: 8 word, 0 :: 8 word)\<rparr>
   \<and> deref \<lparr>base_iter = 5, end_iter = 3, current_value = (0 :: 8 word, 0 :: 8 word)\<rparr>
       = Inl AssertionFailed
   \<and> arrow \<lparr>base_iter = 5, end_iter = 3, current_value = (0 :: 8 word, 0 :: 8 word)\<rparr>
       = Inl AssertionFailed
   \<and> (\<exists>it'. pre_inc [3, 133, 137 :: 8 word]
                \<lparr>base_iter = 5, end_iter = 3, current_value = (0, 0)\<rparr> = Inr it'
           \<and> post_inc [3, 133, 137 :: 8 word]
                \<lparr>base_iter = 5, end_iter = 3, current_value = (0, 0)\<rparr>
                = Inr (\<lparr>base_iter = 5, end_iter = 3, current_value = (0, 0)\<rparr>, it'))"
proof -
  have h: "end_iter \<lparr>base_iter = 5, end_iter = 3, current_value = (0 :: 8 word, 0 :: 8 word)\<rparr>
     \<le> base_iter \<lparr>base_iter = 5, end_iter = 3, current_value = (0 :: 8 word, 0 :: 8 word)\<rparr>"
    by simp
  from at_or_past_end_deref_asserts_increment_returns [OF h, of "[3, 133, 137]"] h
  show ?thesis
    by blast
qed

text \<open>
  The claim C9 as stated fails: the \<open>end()\<close> iterator of the empty \<open>uint8_t\<close> container is
  at its end, and both increments of it return normally instead of failing an assertion.
\<close>

theorem increment_at_end_no_assertion:
  "cend ([] :: 8 word list) = Inr \<lparr>base_iter = 0, end_iter = 0, current_value = (0, 0)\<rparr>
   \<and> pre_inc ([] :: 8 word list) \<lparr>base_iter = 0, end_iter = 0, current_value = (0, 0)\<rparr>
       = Inr \<lparr>base_iter = 1, end_iter = 0, current_value = (0, 0)\<rparr>
   \<and> post_inc ([] :: 8 word list) \<lparr>base_iter = 0, end_iter = 0, current_value = (0, 0)\<rparr>
       = Inr (\<lparr>base_iter = 0, end_iter = 0, current_value = (0, 0)\<rparr>,
              \<lparr>base_iter = 1, end_iter = 0, current_value = (0, 0)\<rparr>)
   \<and> pre_inc ([] :: 8 word list) \<lparr>base_iter = 0, end_iter = 0, current_value = (0, 0)\<rparr>
       \<noteq> Inl AssertionFailed
   \<and> post_inc ([] :: 8 word list) \<lparr>base_iter = 0, end_iter = 0, current_value = (0, 0)\<rparr>
       \<noteq> Inl AssertionFailed"
  by (simp add: cend_def make_iterator_def pre_inc_def post_inc_def advance_def
                calculate_value_def ebind_def)

text \<open>
  C10. For every container \<open>vect\<close> and every iterator of it whose base position is at or
  past the end (the \<open>end()\<close> iterator included), both increments pass no assertion and move
  the base by exactly one word: the prefix-incremented iterator compares greater than
  \<open>end()\<close> and not equal to it, and the postfix increment returns the iterator as it was.
  In particular \<open>cbegin()++\<close> on the empty container returns an iterator equal to \<open>cend()\<close>.
\<close>

theorem increment_past_end_advances:
  assumes "end_iter it = length vect" and "end_iter it \<le> base_iter it"
  shows "\<exists>it' e. pre_inc vect it = Inr it' \<and> post_inc vect it = Inr (it, it')
           \<and> base_iter it' = base_iter it + 1
           \<and> cend vect = Inr e \<and> iter_gt it' e \<and> iter_ne it' e \<and> \<not> iter_eq it' e
           \<and> (vect = [] \<longrightarrow>
                (\<exists>b r b'. cbegin vect = Inr b \<and> post_inc vect b = Inr (r, b') \<and> iter_eq r e))"
  using assms
  by (auto simp: cend_def cbegin_def make_iterator_def pre_inc_def post_inc_def advance_def
                 calculate_value_def ebind_def iter_gt_def iter_ne_def iter_eq_def)

theorem increment_past_end_advances_witness:
  "\<exists>it' e. pre_inc ([] :: 8 word list) \<lparr>base_iter = 0, end_iter = 0, current_value = (0, 0)\<rparr>
              = Inr it'
         \<and> post_inc [] \<lparr>base_iter = 0, end_iter = 0, current_value = (0, 0)\<rparr>
              = Inr (\<lparr>base_iter = 0, end_iter = 0, current_value = (0, 0)\<rparr>, it')
         \<and> base_iter it' = 1
         \<and> cend ([] :: 8 word list) = Inr e \<and> iter_gt it' e \<and> iter_ne it' e
         \<and> (\<exists>b r b'. cbegin ([] :: 8 word list) = Inr b \<and> post_inc [] b = Inr (r, b')
                \<and> iter_eq r e)"
proof -
  have h1: "end_iter \<lparr>base_iter = 0, end_iter = 0, current_value = (0 :: 8 word, 0 :: 8 word)\<rparr>
              = length ([] :: 8 word list)"
    by simp
  have h2: "end_iter \<lparr>base_iter = 0, end_iter = 0, current_value = (0 :: 8 word, 0 :: 8 word)\<rparr>
              \<le> base_iter \<lparr>base_iter = 0, end_iter = 0, current_value = (0 :: 8 word, 0 :: 8 word)\<rparr>"
    by simp
  from increment_past_end_advances [OF h1 h2] show ?thesis
    by auto
qed

end
